theory Spec2Isabelle
  imports Main "HOL-Library.Word"
begin

section \<open>Strings and errors of the host language\<close>

text \<open>
  The module is TypeScript. A string of the host is a sequence of UTF-16 code units, so a
  string is modelled as a list of 16-bit words; \<open>length\<close> counts code units as
  \<^verbatim>\<open>String.prototype.length\<close> does. \<open>js\<close> reads an ASCII literal as such a string.
  An exception of the host is a value of \<open>js_error\<close>; a function that can throw returns
  \<open>js_error + 'a\<close>, with \<open>Inl\<close> for the exception.
\<close>

type_synonym code_unit = "16 word"
type_synonym jsstring = "code_unit list"

datatype js_error = URIError | TypeError | RangeError

definition js :: "string \<Rightarrow> jsstring" where
  "js s = map (\<lambda>c. of_nat (of_char c)) s"

definition SLASH :: code_unit where "SLASH = 47"
definition DOT :: code_unit where "DOT = 46"
definition PERCENT :: code_unit where "PERCENT = 37"

text \<open>\<^verbatim>\<open>s.charCodeAt(i)\<close>: the code unit at \<open>i\<close>, and \<open>None\<close> for the host's NaN out of range.\<close>

definition charCodeAt :: "jsstring \<Rightarrow> int \<Rightarrow> code_unit option" where
  "charCodeAt s i = (if 0 \<le> i \<and> i < int (length s) then Some (s ! nat i) else None)"

text \<open>\<^verbatim>\<open>s.lastIndexOf(c)\<close> for a one-unit needle: the last position of \<open>c\<close>, or \<open>-1\<close>.\<close>

fun lastIndexOf :: "jsstring \<Rightarrow> code_unit \<Rightarrow> int" where
  "lastIndexOf [] c = -1"
| "lastIndexOf (x # xs) c =
     (let r = lastIndexOf xs c in
      if r \<noteq> -1 then r + 1 else if x = c then 0 else -1)"

text \<open>\<^verbatim>\<open>s.slice(a, b)\<close> for non-negative \<open>a\<close> and \<open>b\<close> (the only calls the module makes).\<close>

definition slice :: "jsstring \<Rightarrow> int \<Rightarrow> int \<Rightarrow> jsstring" where
  "slice s a b = take (nat b - nat a) (drop (nat a) s)"

subsection \<open>Splitting and joining\<close>

text \<open>\<^verbatim>\<open>s.split(c)\<close> for a one-unit separator: every occurrence separates, and the
  result always has a first element (\<^verbatim>\<open>"".split("/")\<close> is \<^verbatim>\<open>[""]\<close>).\<close>

fun split :: "code_unit \<Rightarrow> jsstring \<Rightarrow> jsstring list" where
  "split c [] = [[]]"
| "split c (x # xs) =
     (let r = split c xs in if x = c then [] # r else (x # hd r) # tl r)"

text \<open>\<^verbatim>\<open>xs.join(sep)\<close>.\<close>

fun join :: "jsstring \<Rightarrow> jsstring list \<Rightarrow> jsstring" where
  "join sep [] = []"
| "join sep [x] = x"
| "join sep (x # y # ys) = x @ sep @ join sep (y # ys)"

section \<open>Path normalizer\<close>

text \<open>
  \<^verbatim>\<open>posixNormalize\<close> scans the path once with the index \<open>i\<close> running from \<open>0\<close> to
  \<open>path.length\<close> inclusive. Its local variables are the fields of \<open>pn_state\<close>; the
  variable \<^verbatim>\<open>code\<close> is passed on its own, \<open>None\<close> while it is still undefined.
\<close>

record pn_state =
  res :: jsstring
  lastSegmentLength :: int
  lastSlash :: int
  dots :: int

text \<open>The two statements that end every pass through the separator branch, also the
  passes that leave it by \<^verbatim>\<open>continue\<close>.\<close>

definition pn_mark :: "int \<Rightarrow> pn_state \<Rightarrow> pn_state" where
  "pn_mark i st = st\<lparr>lastSlash := i, dots := 0\<rparr>"

text \<open>The block guarded by \<^verbatim>\<open>allowAboveRoot\<close>.\<close>

definition pn_above_root :: "bool \<Rightarrow> pn_state \<Rightarrow> pn_state" where
  "pn_above_root allowAboveRoot st =
     (if allowAboveRoot
      then st\<lparr>res := (if length (res st) > 0 then res st @ js ''/..'' else js ''..''),
              lastSegmentLength := 2\<rparr>
      else st)"

text \<open>The body of the loop when \<^verbatim>\<open>code === SLASH\<close>, at index \<open>i\<close>.\<close>

definition pn_separator :: "jsstring \<Rightarrow> bool \<Rightarrow> int \<Rightarrow> pn_state \<Rightarrow> pn_state" where
  "pn_separator path allowAboveRoot i st =
     (let r = res st; n = int (length r) in
      if lastSlash st = i - 1 \<or> dots st = 1 then pn_mark i st
      else if lastSlash st \<noteq> i - 1 \<and> dots st = 2 then
        (if n < 2 \<or> lastSegmentLength st \<noteq> 2
             \<or> charCodeAt r (n - 1) \<noteq> Some DOT \<or> charCodeAt r (n - 2) \<noteq> Some DOT
         then
           (if n > 2 then
              (let lastSlashIndex = lastIndexOf r SLASH in
               if lastSlashIndex \<noteq> n - 1 then
                 (if lastSlashIndex = -1
                  then pn_mark i (st\<lparr>res := [], lastSegmentLength := 0\<rparr>)
                  else
                    (let r' = slice r 0 lastSlashIndex in
                     pn_mark i (st\<lparr>res := r',
                       lastSegmentLength := int (length r') - 1 - lastIndexOf r' SLASH\<rparr>)))
               else pn_mark i (pn_above_root allowAboveRoot st))
            else if n = 2 \<or> n = 1
            then pn_mark i (st\<lparr>res := [], lastSegmentLength := 0\<rparr>)
            else pn_mark i (pn_above_root allowAboveRoot st))
         else pn_mark i (pn_above_root allowAboveRoot st))
      else
        pn_mark i (st\<lparr>res := (if n > 0 then r @ [SLASH] @ slice path (lastSlash st + 1) i
                                 else slice path (lastSlash st + 1) i),
                         lastSegmentLength := i - lastSlash st - 1\<rparr>))"

text \<open>The body of the loop once \<^verbatim>\<open>code\<close> is set.\<close>

definition pn_body :: "jsstring \<Rightarrow> bool \<Rightarrow> int \<Rightarrow> code_unit \<Rightarrow> pn_state \<Rightarrow> pn_state" where
  "pn_body path allowAboveRoot i code st =
     (if code = SLASH then pn_separator path allowAboveRoot i st
      else if code = DOT \<and> dots st \<noteq> -1 then st\<lparr>dots := dots st + 1\<rparr>
      else st\<lparr>dots := -1\<rparr>)"

text \<open>The loop: \<^verbatim>\<open>for (let i = 0; i <= path.length; ++i)\<close>. Past the last character
  the loop stops when the last character was a separator, and otherwise runs once more
  with a separator as the character.\<close>

function pn_loop :: "jsstring \<Rightarrow> bool \<Rightarrow> nat \<Rightarrow> code_unit option \<Rightarrow> pn_state \<Rightarrow> jsstring" where
  "pn_loop path allowAboveRoot i code st =
     (if i \<le> length path then
        (if i < length path then
           pn_loop path allowAboveRoot (i + 1) (Some (path ! i))
             (pn_body path allowAboveRoot (int i) (path ! i) st)
         else if code = Some SLASH then res st
         else
           pn_loop path allowAboveRoot (i + 1) (Some SLASH)
             (pn_body path allowAboveRoot (int i) SLASH st))
      else res st)"
  by pat_completeness auto
termination
  by (relation "measure (\<lambda>(path, a, i, c, st). length path + 1 - i)") auto

declare pn_loop.simps [simp del]

definition posixNormalize :: "jsstring \<Rightarrow> bool \<Rightarrow> jsstring" where
  "posixNormalize path allowAboveRoot =
     pn_loop path allowAboveRoot 0 None
       \<lparr>res = [], lastSegmentLength = 0, lastSlash = -1, dots = 0\<rparr>"

subsection \<open>Percent decoding\<close>

text \<open>
  \<^verbatim>\<open>decodeURIComponent\<close> is the host's; it is modelled after the Decode operation of
  ECMA-262 with an empty set of preserved escapes. An escape \<open>%XX\<close> whose octet is below
  128 gives that code unit. An octet with \<open>n\<close> leading one bits opens a UTF-8 sequence
  of \<open>n\<close> escaped octets, which must be a well-formed encoding of a code point; the code
  point is appended in UTF-16. Everything else throws a URIError.
\<close>

definition hex_value :: "code_unit \<Rightarrow> int option" where
  "hex_value c =
     (let n = uint c in
      if 48 \<le> n \<and> n \<le> 57 then Some (n - 48)
      else if 65 \<le> n \<and> n \<le> 70 then Some (n - 55)
      else if 97 \<le> n \<and> n \<le> 102 then Some (n - 87)
      else None)"

definition hex_octet :: "code_unit \<Rightarrow> code_unit \<Rightarrow> int option" where
  "hex_octet h l =
     (case hex_value h of None \<Rightarrow> None
      | Some a \<Rightarrow> (case hex_value l of None \<Rightarrow> None | Some b \<Rightarrow> Some (16 * a + b)))"

text \<open>The number of leading one bits of an octet (5 stands for five and more).\<close>

definition leading_ones :: "int \<Rightarrow> nat" where
  "leading_ones b =
     (if b < 128 then 0 else if b < 192 then 1 else if b < 224 then 2
      else if b < 240 then 3 else if b < 248 then 4 else 5)"

text \<open>Reads \<open>k\<close> further escapes \<open>%XX\<close> from the front of a string.\<close>

fun escaped_octets :: "nat \<Rightarrow> jsstring \<Rightarrow> int list option" where
  "escaped_octets 0 s = Some []"
| "escaped_octets (Suc k) (p # h # l # s) =
     (if p \<noteq> PERCENT then None
      else case hex_octet h l of None \<Rightarrow> None
        | Some b \<Rightarrow> (case escaped_octets k s of None \<Rightarrow> None | Some bs \<Rightarrow> Some (b # bs)))"
| "escaped_octets (Suc k) s = None"

definition continuation :: "int \<Rightarrow> bool" where
  "continuation b = (128 \<le> b \<and> b < 192)"

text \<open>The code point of a well-formed UTF-8 sequence of octets, the first of which has
  as many leading one bits as the sequence has octets: continuation octets in
  \<open>80..BF\<close>, no overlong form, no surrogate, nothing above \<open>10FFFF\<close>.\<close>

fun utf8_code_point :: "int list \<Rightarrow> int option" where
  "utf8_code_point [b0, b1] =
     (let cp = (b0 - 192) * 64 + (b1 - 128) in
      if continuation b1 \<and> 128 \<le> cp then Some cp else None)"
| "utf8_code_point [b0, b1, b2] =
     (let cp = (b0 - 224) * 4096 + (b1 - 128) * 64 + (b2 - 128) in
      if continuation b1 \<and> continuation b2 \<and> 2048 \<le> cp \<and> \<not> (55296 \<le> cp \<and> cp \<le> 57343)
      then Some cp else None)"
| "utf8_code_point [b0, b1, b2, b3] =
     (let cp = (b0 - 240) * 262144 + (b1 - 128) * 4096 + (b2 - 128) * 64 + (b3 - 128) in
      if continuation b1 \<and> continuation b2 \<and> continuation b3 \<and> 65536 \<le> cp \<and> cp \<le> 1114111
      then Some cp else None)"
| "utf8_code_point bs = None"

text \<open>A code point in UTF-16: one unit, or a surrogate pair above the basic plane.\<close>

definition utf16_units :: "int \<Rightarrow> jsstring" where
  "utf16_units cp =
     (if cp < 65536 then [word_of_int cp]
      else [word_of_int (55296 + (cp - 65536) div 1024),
            word_of_int (56320 + (cp - 65536) mod 1024)])"

fun decodeURIComponent :: "jsstring \<Rightarrow> js_error + jsstring" where
  "decodeURIComponent [] = Inr []"
| "decodeURIComponent (c # s) =
     (if c \<noteq> PERCENT then
        (case decodeURIComponent s of Inl e \<Rightarrow> Inl e | Inr r \<Rightarrow> Inr (c # r))
      else
        (case s of
           h # l # s' \<Rightarrow>
             (case hex_octet h l of
                None \<Rightarrow> Inl URIError
              | Some b \<Rightarrow>
                  (let n = leading_ones b in
                   if n = 0 then
                     (case decodeURIComponent s' of Inl e \<Rightarrow> Inl e
                      | Inr r \<Rightarrow> Inr (word_of_int b # r))
                   else if n = 1 \<or> n > 4 then Inl URIError
                   else
                     (case escaped_octets (n - 1) s' of
                        None \<Rightarrow> Inl URIError
                      | Some bs \<Rightarrow>
                          (case utf8_code_point (b # bs) of
                             None \<Rightarrow> Inl URIError
                           | Some cp \<Rightarrow>
                               (case decodeURIComponent (drop (3 * (n - 1)) s') of
                                  Inl e \<Rightarrow> Inl e
                                | Inr r \<Rightarrow> Inr (utf16_units cp @ r))))))
         | _ \<Rightarrow> Inl URIError))"

subsection \<open>normalize\<close>

text \<open>
  The decoding stands in a \<^verbatim>\<open>try\<close> with a \<^verbatim>\<open>finally\<close> block and no
  \<^verbatim>\<open>catch\<close>: when \<^verbatim>\<open>decodeURIComponent\<close> throws, the \<^verbatim>\<open>finally\<close> block
  still normalizes the undecoded path into the local variable, and then the exception
  leaves \<^verbatim>\<open>normalize\<close>.
\<close>

definition normalize :: "jsstring \<Rightarrow> js_error + jsstring" where
  "normalize p =
     (if length p = 0 then Inr (js ''.'')
      else
        (let isAbsolute = (charCodeAt p 0 = Some SLASH);
             trailingSeparator = (charCodeAt p (int (length p) - 1) = Some SLASH)
         in case decodeURIComponent p of
              Inl e \<Rightarrow> (let path = posixNormalize p (\<not> isAbsolute) in Inl e)
            | Inr decoded \<Rightarrow>
                (let path = posixNormalize decoded (\<not> isAbsolute);
                     path = (if length path = 0 \<and> \<not> isAbsolute then js ''.'' else path);
                     path = (if length path > 0 \<and> trailingSeparator then path @ js ''/'' else path)
                 in if isAbsolute then Inr (js ''/'' @ path) else Inr path)))"

subsection \<open>The normalizer as the specification words it\<close>

text \<open>
  The specification describes the walk segment by segment, the segments being the parts of
  the path between separators. An empty segment and the segment \<open>.\<close> are dropped. The
  segment \<open>..\<close> removes the last segment of the result when there is one and it is not
  \<open>..\<close> itself; otherwise it is appended when traversal above the root is allowed and
  dropped when it is not. Any other segment is appended. The result is joined with
  separators. \<open>spec_posixNormalize\<close> is this description; it is compared with
  \<open>posixNormalize\<close>, the loop of the source.
\<close>

definition spec_segment :: "bool \<Rightarrow> jsstring list \<Rightarrow> jsstring \<Rightarrow> jsstring list" where
  "spec_segment allowAboveRoot acc seg =
     (if seg = [] \<or> seg = [DOT] then acc
      else if seg = [DOT, DOT] then
        (if acc \<noteq> [] \<and> last acc \<noteq> [DOT, DOT] then butlast acc
         else if allowAboveRoot then acc @ [[DOT, DOT]]
         else acc)
      else acc @ [seg])"

definition spec_posixNormalize :: "jsstring \<Rightarrow> bool \<Rightarrow> jsstring" where
  "spec_posixNormalize path allowAboveRoot =
     join [SLASH] (foldl (spec_segment allowAboveRoot) [] (split SLASH path))"

subsection \<open>Notions for the comparison\<close>

text \<open>The description of the specification, read one character at a time: \<open>acc\<close> holds
  the segments of the result so far and \<open>cur\<close> the segment being read.\<close>

fun walk :: "bool \<Rightarrow> jsstring list \<Rightarrow> jsstring \<Rightarrow> jsstring \<Rightarrow> jsstring list" where
  "walk a acc cur [] = spec_segment a acc cur"
| "walk a acc cur (c # rest) =
     (if c = SLASH then walk a (spec_segment a acc cur) [] rest
      else walk a acc (cur @ [c]) rest)"

text \<open>The segments of a result are not empty and hold no separator.\<close>

definition good :: "jsstring list \<Rightarrow> bool" where
  "good acc = list_all (\<lambda>s. s \<noteq> [] \<and> SLASH \<notin> set s) acc"

text \<open>How the variables of the loop stand for the segments of the result: \<open>res\<close> is
  the segments joined, and \<open>lastSegmentLength\<close> is the length of the last of them.\<close>

definition holds :: "pn_state \<Rightarrow> jsstring list \<Rightarrow> bool" where
  "holds st acc =
     (res st = join [SLASH] acc \<and> good acc
      \<and> lastSegmentLength st = (if acc = [] then 0 else int (length (last acc))))"

text \<open>The invariant of the loop before the character at \<open>i\<close> is read.\<close>

definition pn_inv ::
  "jsstring \<Rightarrow> nat \<Rightarrow> code_unit option \<Rightarrow> pn_state \<Rightarrow> jsstring list \<Rightarrow> jsstring \<Rightarrow> bool" where
  "pn_inv path i code st acc cur =
     (holds st acc
      \<and> lastSlash st = int i - 1 - int (length cur)
      \<and> dots st = (if list_all (\<lambda>c. c = DOT) cur then int (length cur) else -1)
      \<and> length cur \<le> i \<and> i \<le> length path
      \<and> cur = take (length cur) (drop (i - length cur) path)
      \<and> SLASH \<notin> set cur
      \<and> (code = Some SLASH \<longrightarrow> cur = []))"

subsection \<open>The result of normalize\<close>

text \<open>What \<open>normalize\<close> does to the result of the loop: the empty result of a relative
  path becomes \<open>.\<close>, the trailing separator and the leading one are put back.\<close>

definition finish :: "bool \<Rightarrow> bool \<Rightarrow> jsstring \<Rightarrow> jsstring" where
  "finish isAbsolute trailingSeparator r =
     (let path = (if length r = 0 \<and> \<not> isAbsolute then js ''.'' else r);
          path = (if length path > 0 \<and> trailingSeparator then path @ js ''/'' else path)
      in if isAbsolute then js ''/'' @ path else path)"

text \<open>The segments of a result: no segment \<open>.\<close>, and the segments \<open>..\<close> come first and
  only when traversal above the root is allowed.\<close>

definition normal_segments :: "bool \<Rightarrow> jsstring list \<Rightarrow> bool" where
  "normal_segments a acc =
     (good acc \<and> [DOT] \<notin> set acc
      \<and> [DOT, DOT] \<notin> set (dropWhile (\<lambda>s. s = [DOT, DOT]) acc)
      \<and> (a \<or> [DOT, DOT] \<notin> set acc))"

section \<open>Reference resolver\<close>

definition HASH :: code_unit where "HASH = 35"

subsection \<open>validURL\<close>

text \<open>
  \<^verbatim>\<open>validURL\<close> tests its argument against a regular expression with the flag \<open>i\<close>.
  The expression has no back-reference and no look-around and is anchored at both ends,
  so \<^verbatim>\<open>test\<close> decides membership in its language. A regular expression is a value of
  \<open>rx\<close>; a character class is a list of ranges of code units, and the flag \<open>i\<close> is
  written out in the classes (both cases of every letter).
\<close>

datatype rx = Nul | Eps | Sym "(int \<times> int) list" | Seq rx rx | Alt rx rx | Star rx

definition in_ranges :: "(int \<times> int) list \<Rightarrow> code_unit \<Rightarrow> bool" where
  "in_ranges rs c = list_ex (\<lambda>(lo, hi). lo \<le> uint c \<and> uint c \<le> hi) rs"

fun nullable :: "rx \<Rightarrow> bool" where
  "nullable Nul = False"
| "nullable Eps = True"
| "nullable (Sym rs) = False"
| "nullable (Seq r s) = (nullable r \<and> nullable s)"
| "nullable (Alt r s) = (nullable r \<or> nullable s)"
| "nullable (Star r) = True"

text \<open>The expression for what may follow after the code unit \<open>c\<close> has been read.\<close>

fun deriv :: "code_unit \<Rightarrow> rx \<Rightarrow> rx" where
  "deriv c Nul = Nul"
| "deriv c Eps = Nul"
| "deriv c (Sym rs) = (if in_ranges rs c then Eps else Nul)"
| "deriv c (Seq r s) =
     (if nullable r then Alt (Seq (deriv c r) s) (deriv c s) else Seq (deriv c r) s)"
| "deriv c (Alt r s) = Alt (deriv c r) (deriv c s)"
| "deriv c (Star r) = Seq (deriv c r) (Star r)"

definition rx_test :: "rx \<Rightarrow> jsstring \<Rightarrow> bool" where
  "rx_test r s = nullable (fold deriv s r)"

definition seqs :: "rx list \<Rightarrow> rx" where
  "seqs rs = foldr Seq rs Eps"

definition opt :: "rx \<Rightarrow> rx" where
  "opt r = Alt r Eps"

definition plus_rx :: "rx \<Rightarrow> rx" where
  "plus_rx r = Seq r (Star r)"

text \<open>A literal letter under the flag \<open>i\<close>, given by its lower-case code unit.\<close>

definition letter :: "int \<Rightarrow> rx" where
  "letter c = Sym [(c, c), (c - 32, c - 32)]"

definition chr_rx :: "int \<Rightarrow> rx" where
  "chr_rx c = Sym [(c, c)]"

text \<open>The classes of the pattern: \<^verbatim>\<open>[a-z]\<close>, \<^verbatim>\<open>\d\<close>, \<^verbatim>\<open>[a-z\d]\<close>, \<^verbatim>\<open>[a-z\d-]\<close>,
  \<^verbatim>\<open>[-a-z\d%_.~+]\<close>, \<^verbatim>\<open>[;&a-z\d%_.~+=-]\<close> and \<^verbatim>\<open>[-a-z\d_]\<close>.\<close>

definition az :: "(int \<times> int) list" where "az = [(97, 122), (65, 90)]"
definition digit :: "(int \<times> int) list" where "digit = [(48, 57)]"
definition cls_alnum :: rx where "cls_alnum = Sym (az @ digit)"
definition cls_alnum_dash :: rx where "cls_alnum_dash = Sym (az @ digit @ [(45, 45)])"
definition cls_path :: rx where
  "cls_path = Sym ([(45, 45)] @ az @ digit @ [(37, 37), (95, 95), (46, 46), (126, 126), (43, 43)])"
definition cls_query :: rx where
  "cls_query = Sym ([(59, 59), (38, 38)] @ az @ digit
     @ [(37, 37), (95, 95), (46, 46), (126, 126), (43, 43), (61, 61), (45, 45)])"
definition cls_fragment :: rx where
  "cls_fragment = Sym ([(45, 45)] @ az @ digit @ [(95, 95)])"

text \<open>\<^verbatim>\<open>\d{1,3}\<close>.\<close>

definition digits_1_3 :: rx where
  "digits_1_3 = Seq (Sym digit) (opt (Seq (Sym digit) (opt (Sym digit))))"

text \<open>
  The pattern, piece by piece as the source concatenates it:
  \<^verbatim>\<open>^(https?:\/\/)\<close>,
  \<^verbatim>\<open>((([a-z\d]([a-z\d-]*[a-z\d])*)\.)+[a-z]{2,}|\<close>
  \<^verbatim>\<open>((\d{1,3}\.){3}\d{1,3}))\<close>,
  \<^verbatim>\<open>(\:\d+)?(\/[-a-z\d%_.~+]*)*\<close>,
  \<^verbatim>\<open>(\?[;&a-z\d%_.~+=-]*)?\<close>,
  \<^verbatim>\<open>(\#[-a-z\d_]*)?$\<close>.
\<close>

definition rx_protocol :: rx where
  "rx_protocol =
     seqs [letter 104, letter 116, letter 116, letter 112, opt (letter 115),
           chr_rx 58, chr_rx 47, chr_rx 47]"

definition rx_domain :: rx where
  "rx_domain =
     Seq (plus_rx (Seq (Seq cls_alnum (Star (Seq (Star cls_alnum_dash) cls_alnum))) (chr_rx 46)))
         (seqs [Sym az, Sym az, Star (Sym az)])"

definition rx_ipv4 :: rx where
  "rx_ipv4 =
     seqs [Seq digits_1_3 (chr_rx 46), Seq digits_1_3 (chr_rx 46), Seq digits_1_3 (chr_rx 46),
           digits_1_3]"

definition rx_port_path :: rx where
  "rx_port_path =
     Seq (opt (Seq (chr_rx 58) (plus_rx (Sym digit))))
         (Star (Seq (chr_rx 47) (Star cls_path)))"

definition rx_query :: rx where
  "rx_query = opt (Seq (chr_rx 63) (Star cls_query))"

definition rx_fragment :: rx where
  "rx_fragment = opt (Seq (chr_rx 35) (Star cls_fragment))"

definition validURL_pattern :: rx where
  "validURL_pattern =
     seqs [rx_protocol, Alt rx_domain rx_ipv4, rx_port_path, rx_query, rx_fragment]"

definition validURL :: "jsstring \<Rightarrow> bool" where
  "validURL str = rx_test validURL_pattern str"

subsection \<open>relativePath, createRef, parseRef\<close>

text \<open>An optional string argument is falsy when it is missing and when it is empty.\<close>

definition falsy :: "jsstring option \<Rightarrow> bool" where
  "falsy s = (case s of None \<Rightarrow> True | Some t \<Rightarrow> t = [])"

definition relativePath :: "jsstring \<Rightarrow> jsstring option \<Rightarrow> js_error + jsstring" where
  "relativePath path basePath =
     (if falsy basePath then normalize path
      else if path = [] then normalize (the basePath)
      else
        (let base = split SLASH (the basePath);
             base = base[length base - 1 := path]
         in normalize (join [SLASH] base)))"

definition createRef :: "jsstring option \<Rightarrow> jsstring option \<Rightarrow> jsstring" where
  "createRef basePath pointer =
     (if falsy basePath
      then (if falsy pointer then [HASH] else [HASH] @ the pointer)
      else the basePath @ (if falsy pointer then [] else [HASH] @ the pointer))"

record parsed_ref =
  filePath :: jsstring
  pointer :: jsstring
  normalized :: jsstring

text \<open>
  \<^verbatim>\<open>new URL(s).href\<close> is the host's URL parser; \<open>parseRef\<close> takes it as the parameter
  \<open>url_href\<close> (it throws a TypeError on a string it cannot parse).
  The destructuring \<^verbatim>\<open>[sourcePath = basePath, ref] = $ref.split("#")\<close> takes the first
  two elements of the split; the default applies to an element that is undefined.
\<close>

definition parseRef ::
  "(jsstring \<Rightarrow> js_error + jsstring) \<Rightarrow> jsstring \<Rightarrow> jsstring \<Rightarrow> js_error + parsed_ref" where
  "parseRef url_href ref basePath =
     (let parts = split HASH ref;
          sourcePath = (case parts of [] \<Rightarrow> basePath | s # _ \<Rightarrow> s);
          ref' = (case parts of _ # r # _ \<Rightarrow> Some r | _ \<Rightarrow> None)
      in case (if validURL sourcePath then url_href sourcePath
               else relativePath sourcePath (Some basePath)) of
           Inl e \<Rightarrow> Inl e
         | Inr fp \<Rightarrow>
             (let ptr = (if falsy ref' \<or> ref' = Some (js ''/'') then [] else the ref')
              in Inr \<lparr>filePath = fp, pointer = ptr,
                       normalized = createRef (Some fp) (Some ptr)\<rparr>))"

text \<open>What \<open>parseRef\<close> returns for a given source path and raw fragment (the empty
  fragment also stands for a missing one): the statement of its splitting compares
  against this.\<close>

definition resolve_source ::
  "(jsstring \<Rightarrow> js_error + jsstring) \<Rightarrow> jsstring \<Rightarrow> jsstring \<Rightarrow> jsstring
     \<Rightarrow> js_error + parsed_ref" where
  "resolve_source url_href sourcePath fragment basePath =
     (case (if validURL sourcePath then url_href sourcePath
            else relativePath sourcePath (Some basePath)) of
        Inl e \<Rightarrow> Inl e
      | Inr fp \<Rightarrow>
          (let ptr = (if fragment = [] \<or> fragment = js ''/'' then [] else fragment)
           in Inr \<lparr>filePath = fp, pointer = ptr, normalized = createRef (Some fp) (Some ptr)\<rparr>))"

section \<open>Path items\<close>

text \<open>A path item is a string or a number (\<^verbatim>\<open>ObjPath = (string | number)[]\<close>); a number
  in a path is a non-negative integer below \<open>2^53\<close>.\<close>

datatype path_item = PStr jsstring | PNum nat

text \<open>\<^verbatim>\<open>String(n)\<close> for such a number: its decimal digits.\<close>

function decimal :: "nat \<Rightarrow> jsstring" where
  "decimal n = (if n < 10 then [of_nat (48 + n)] else decimal (n div 10) @ [of_nat (48 + n mod 10)])"
  by pat_completeness auto
termination
  by (relation "measure id") auto

declare decimal.simps [simp del]

section \<open>Pointer codec\<close>

subsection \<open>Replacing with a global pattern\<close>

text \<open>\<^verbatim>\<open>s.replace(/c/g, rep)\<close> for a pattern of one literal character, and
  \<^verbatim>\<open>s.replace(/ab/g, rep)\<close> for a pattern of two: the matches are found from left to
  right and do not overlap.\<close>

fun replace_unit :: "code_unit \<Rightarrow> jsstring \<Rightarrow> jsstring \<Rightarrow> jsstring" where
  "replace_unit c rep [] = []"
| "replace_unit c rep (x # s) =
     (if x = c then rep @ replace_unit c rep s else x # replace_unit c rep s)"

fun replace_pair :: "code_unit \<Rightarrow> code_unit \<Rightarrow> jsstring \<Rightarrow> jsstring \<Rightarrow> jsstring" where
  "replace_pair a b rep (x # y # s) =
     (if x = a \<and> y = b then rep @ replace_pair a b rep s
      else x # replace_pair a b rep (y # s))"
| "replace_pair a b rep s = s"

definition TILDE :: code_unit where "TILDE = 126"
definition ZERO :: code_unit where "ZERO = 48"
definition ONE :: code_unit where "ONE = 49"

text \<open>The four patterns of \<^verbatim>\<open>pathMask\<close>, each with the replacement the module uses.\<close>

definition escape_tilde :: "jsstring \<Rightarrow> jsstring" where
  "escape_tilde s = replace_unit TILDE (js ''~0'') s"

definition escape_slash :: "jsstring \<Rightarrow> jsstring" where
  "escape_slash s = replace_unit SLASH (js ''~1'') s"

definition unescape_slash :: "jsstring \<Rightarrow> jsstring" where
  "unescape_slash s = replace_pair TILDE ONE (js ''/'') s"

definition unescape_tilde :: "jsstring \<Rightarrow> jsstring" where
  "unescape_tilde s = replace_pair TILDE ZERO (js ''~'') s"

subsection \<open>Percent encoding\<close>

text \<open>
  \<^verbatim>\<open>encodeURIComponent\<close> is the host's; it is modelled after the Encode operation of
  ECMA-262. The characters \<^verbatim>\<open>A-Z a-z 0-9 - _ . ! ~ * ' ( )\<close> stay; every other code
  point is written as the escapes \<open>%XX\<close> of its UTF-8 octets, with upper-case digits. A
  surrogate that is not part of a pair throws a URIError.
\<close>

definition unreserved :: "code_unit \<Rightarrow> bool" where
  "unreserved c =
     (let n = uint c in
      (65 \<le> n \<and> n \<le> 90) \<or> (97 \<le> n \<and> n \<le> 122) \<or> (48 \<le> n \<and> n \<le> 57)
      \<or> n = 45 \<or> n = 95 \<or> n = 46 \<or> n = 33 \<or> n = 126 \<or> n = 42 \<or> n = 39 \<or> n = 40 \<or> n = 41)"

definition lead_surrogate :: "code_unit \<Rightarrow> bool" where
  "lead_surrogate c = (55296 \<le> uint c \<and> uint c \<le> 56319)"

definition trail_surrogate :: "code_unit \<Rightarrow> bool" where
  "trail_surrogate c = (56320 \<le> uint c \<and> uint c \<le> 57343)"

definition surrogate_pair :: "code_unit \<Rightarrow> code_unit \<Rightarrow> int" where
  "surrogate_pair c d = (uint c - 55296) * 1024 + (uint d - 56320) + 65536"

definition utf8_octets :: "int \<Rightarrow> int list" where
  "utf8_octets cp =
     (if cp < 128 then [cp]
      else if cp < 2048 then [192 + cp div 64, 128 + cp mod 64]
      else if cp < 65536 then [224 + cp div 4096, 128 + (cp div 64) mod 64, 128 + cp mod 64]
      else [240 + cp div 262144, 128 + (cp div 4096) mod 64, 128 + (cp div 64) mod 64,
            128 + cp mod 64])"

definition hex_digit :: "int \<Rightarrow> code_unit" where
  "hex_digit d = word_of_int (if d < 10 then 48 + d else 55 + d)"

definition escape_octet :: "int \<Rightarrow> jsstring" where
  "escape_octet b = [PERCENT, hex_digit (b div 16), hex_digit (b mod 16)]"

definition escape_code_point :: "int \<Rightarrow> jsstring" where
  "escape_code_point cp = concat (map escape_octet (utf8_octets cp))"

fun encodeURIComponent :: "jsstring \<Rightarrow> js_error + jsstring" where
  "encodeURIComponent [] = Inr []"
| "encodeURIComponent [c] =
     (if unreserved c then Inr [c]
      else if lead_surrogate c \<or> trail_surrogate c then Inl URIError
      else Inr (escape_code_point (uint c)))"
| "encodeURIComponent (c # d # s) =
     (if unreserved c then
        (case encodeURIComponent (d # s) of Inl e \<Rightarrow> Inl e | Inr r \<Rightarrow> Inr (c # r))
      else if trail_surrogate c then Inl URIError
      else if lead_surrogate c then
        (if trail_surrogate d then
           (case encodeURIComponent s of Inl e \<Rightarrow> Inl e
            | Inr r \<Rightarrow> Inr (escape_code_point (surrogate_pair c d) @ r))
         else Inl URIError)
      else
        (case encodeURIComponent (d # s) of Inl e \<Rightarrow> Inl e
         | Inr r \<Rightarrow> Inr (escape_code_point (uint c) @ r)))"

subsection \<open>parsePointer, buildPointer, buildRef\<close>

text \<open>\<^verbatim>\<open>xs.map(f)\<close> for an \<open>f\<close> that can throw: the first exception leaves the map.\<close>

fun map_throwing :: "('a \<Rightarrow> js_error + 'b) \<Rightarrow> 'a list \<Rightarrow> js_error + 'b list" where
  "map_throwing f [] = Inr []"
| "map_throwing f (x # xs) =
     (case f x of
        Inl e \<Rightarrow> Inl e
      | Inr y \<Rightarrow> (case map_throwing f xs of Inl e \<Rightarrow> Inl e | Inr ys \<Rightarrow> Inr (y # ys)))"

text \<open>\<^verbatim>\<open>String(i)\<close> for a path item.\<close>

fun to_String :: "path_item \<Rightarrow> jsstring" where
  "to_String (PStr s) = s"
| "to_String (PNum n) = decimal n"

text \<open>The map runs over every part of the split, the first included, before
  \<^verbatim>\<open>slice(1)\<close> drops the first.\<close>

definition parsePointer :: "jsstring \<Rightarrow> js_error + jsstring list" where
  "parsePointer ptr =
     (case map_throwing (\<lambda>i. decodeURIComponent (unescape_tilde (unescape_slash i)))
             (split SLASH ptr) of
        Inl e \<Rightarrow> Inl e
      | Inr tokens \<Rightarrow> Inr (drop 1 tokens))"

definition buildPointer :: "path_item list \<Rightarrow> js_error + jsstring" where
  "buildPointer path =
     (if length path = 0 then Inr []
      else
        (case map_throwing (\<lambda>i. encodeURIComponent (escape_slash (escape_tilde (to_String i))))
                path of
           Inl e \<Rightarrow> Inl e
         | Inr parts \<Rightarrow> Inr (js ''/'' @ join (js ''/'') parts)))"

definition buildRef :: "path_item list \<Rightarrow> jsstring \<Rightarrow> js_error + jsstring" where
  "buildRef path fileName =
     (if length path = 0 then Inr (if fileName = [] then js ''#'' else fileName)
      else (case buildPointer path of Inl e \<Rightarrow> Inl e | Inr p \<Rightarrow> Inr (fileName @ js ''#'' @ p)))"

subsection \<open>Notions for the round trip\<close>

text \<open>A string is well formed when every surrogate in it is one of a pair: a lead
  surrogate followed by a trail surrogate.\<close>

fun well_formed :: "jsstring \<Rightarrow> bool" where
  "well_formed [] = True"
| "well_formed [c] = (\<not> lead_surrogate c \<and> \<not> trail_surrogate c)"
| "well_formed (c # d # s) =
     (if lead_surrogate c then trail_surrogate d \<and> well_formed s
      else \<not> trail_surrogate c \<and> well_formed (d # s))"

text \<open>Appending to a result that may be an exception.\<close>

definition then_append :: "jsstring \<Rightarrow> js_error + jsstring \<Rightarrow> js_error + jsstring" where
  "then_append x r = (case r of Inl e \<Rightarrow> Inl e | Inr y \<Rightarrow> Inr (x @ y))"

text \<open>An escape consists of the percent sign and hexadecimal digits.\<close>

definition escape_char :: "code_unit \<Rightarrow> bool" where
  "escape_char c = (c = PERCENT \<or> (48 \<le> uint c \<and> uint c \<le> 57) \<or> (65 \<le> uint c \<and> uint c \<le> 70))"

text \<open>What the two directions of the codec do to one token.\<close>

definition token_round_trip :: "jsstring \<Rightarrow> jsstring \<Rightarrow> bool" where
  "token_round_trip t e =
     (encodeURIComponent (escape_slash (escape_tilde t)) = Inr e
      \<and> SLASH \<notin> set e
      \<and> decodeURIComponent (unescape_tilde (unescape_slash e)) = Inr t)"

section \<open>Tree values\<close>

text \<open>
  The functions below take arguments of type \<^verbatim>\<open>any\<close>. A value is \<^verbatim>\<open>undefined\<close>,
  \<^verbatim>\<open>null\<close>, a boolean, a number, a string, an array or a plain object. An array has its
  elements (\<open>None\<close> is a hole) and, after them, its own named properties; an object has
  its own properties in the order in which \<^verbatim>\<open>Object.keys\<close> lists them, every key once.
  A number is an integer. Outside the values of the model: an object with another
  prototype than the builtin one, accessors, frozen objects, functions and symbols; and
  sharing, a value being a tree. \<open>js_get\<close> and \<open>js_set\<close> below read and write own
  properties: a property inherited from a builtin prototype (a key such as
  \<^verbatim>\<open>toString\<close> or \<^verbatim>\<open>__proto__\<close>) is outside them, and \<open>mergeValues\<close> accounts
  for it in its own loop.
\<close>

datatype jsvalue =
    Undefined
  | Null
  | Bool bool
  | Num int
  | Str jsstring
  | Arr "jsvalue option list" "(jsstring \<times> jsvalue) list"
  | Obj "(jsstring \<times> jsvalue) list"

text \<open>A property key is an array index when it is the canonical decimal form of a number
  below \<open>2^32 - 1\<close>.\<close>

definition is_digit :: "code_unit \<Rightarrow> bool" where
  "is_digit c = (48 \<le> uint c \<and> uint c \<le> 57)"

definition array_index :: "jsstring \<Rightarrow> nat option" where
  "array_index k =
     (if k \<noteq> [] \<and> list_all is_digit k \<and> (length k = 1 \<or> hd k \<noteq> 48)
      then (let n = foldl (\<lambda>a c. 10 * a + (uint c - 48)) 0 k
            in if n < 4294967295 then Some (nat n) else None)
      else None)"

text \<open>The key under which \<^verbatim>\<open>o[key]\<close> looks: a number is converted to a string.\<close>

fun prop_key :: "path_item \<Rightarrow> jsstring" where
  "prop_key (PStr s) = s"
| "prop_key (PNum n) = decimal n"

text \<open>The key under which \<^verbatim>\<open>o[+key]\<close> looks. The conversion of a string to a number
  and back, \<^verbatim>\<open>String(+s)\<close>, is the host's and is the parameter \<open>to_number\<close>
  (it maps \<^verbatim>\<open>"01"\<close> to \<^verbatim>\<open>"1"\<close> and \<^verbatim>\<open>"x"\<close> to \<^verbatim>\<open>"NaN"\<close>).\<close>

fun number_key :: "(jsstring \<Rightarrow> jsstring) \<Rightarrow> path_item \<Rightarrow> jsstring" where
  "number_key to_number (PStr s) = to_number s"
| "number_key to_number (PNum n) = decimal n"

definition typeof :: "jsvalue \<Rightarrow> string" where
  "typeof v =
     (case v of Undefined \<Rightarrow> ''undefined'' | Null \<Rightarrow> ''object'' | Bool b \<Rightarrow> ''boolean''
      | Num n \<Rightarrow> ''number'' | Str s \<Rightarrow> ''string'' | Arr xs ps \<Rightarrow> ''object''
      | Obj ps \<Rightarrow> ''object'')"

definition isArray :: "jsvalue \<Rightarrow> bool" where
  "isArray v = (case v of Arr xs ps \<Rightarrow> True | _ \<Rightarrow> False)"

definition isObject :: "jsvalue \<Rightarrow> bool" where
  "isObject v = (typeof v = ''object'' \<and> v \<noteq> Null)"

subsection \<open>Reading and writing a property\<close>

definition lookup :: "(jsstring \<times> jsvalue) list \<Rightarrow> jsstring \<Rightarrow> jsvalue" where
  "lookup ps k = (case map_of ps k of None \<Rightarrow> Undefined | Some v \<Rightarrow> v)"

definition element :: "jsvalue option \<Rightarrow> jsvalue" where
  "element e = (case e of None \<Rightarrow> Undefined | Some v \<Rightarrow> v)"

text \<open>\<^verbatim>\<open>o[k]\<close>: a TypeError on \<^verbatim>\<open>undefined\<close> and \<^verbatim>\<open>null\<close>, the own property
  otherwise, and \<^verbatim>\<open>undefined\<close> where there is none.\<close>

definition js_get :: "jsvalue \<Rightarrow> jsstring \<Rightarrow> js_error + jsvalue" where
  "js_get v k =
     (case v of
        Undefined \<Rightarrow> Inl TypeError
      | Null \<Rightarrow> Inl TypeError
      | Bool b \<Rightarrow> Inr Undefined
      | Num n \<Rightarrow> Inr Undefined
      | Str s \<Rightarrow>
          (case array_index k of
             Some i \<Rightarrow> Inr (if i < length s then Str [s ! i] else Undefined)
           | None \<Rightarrow> Inr (if k = js ''length'' then Num (int (length s)) else Undefined))
      | Arr xs ps \<Rightarrow>
          (case array_index k of
             Some i \<Rightarrow> Inr (if i < length xs then element (xs ! i) else Undefined)
           | None \<Rightarrow> Inr (if k = js ''length'' then Num (int (length xs)) else lookup ps k))
      | Obj ps \<Rightarrow> Inr (lookup ps k))"

text \<open>A new property of an object is listed after the existing ones, except that the keys
  that are array indices come first, in ascending order.\<close>

definition listed_before :: "jsstring \<Rightarrow> jsstring \<Rightarrow> bool" where
  "listed_before k k' =
     (case array_index k of None \<Rightarrow> False
      | Some i \<Rightarrow> (case array_index k' of None \<Rightarrow> True | Some j \<Rightarrow> i < j))"

fun insert_prop :: "jsstring \<Rightarrow> 'v \<Rightarrow> (jsstring \<times> 'v) list \<Rightarrow> (jsstring \<times> 'v) list" where
  "insert_prop k v [] = [(k, v)]"
| "insert_prop k v (p # ps) =
     (if listed_before k (fst p) then (k, v) # p # ps else p # insert_prop k v ps)"

fun replace_prop :: "jsstring \<Rightarrow> 'v \<Rightarrow> (jsstring \<times> 'v) list \<Rightarrow> (jsstring \<times> 'v) list" where
  "replace_prop k v [] = []"
| "replace_prop k v (p # ps) = (if fst p = k then (k, v) # ps else p # replace_prop k v ps)"

definition put_prop :: "(jsstring \<times> 'v) list \<Rightarrow> jsstring \<Rightarrow> 'v \<Rightarrow> (jsstring \<times> 'v) list" where
  "put_prop ps k v = (if map_of ps k = None then insert_prop k v ps else replace_prop k v ps)"

text \<open>Writing the element \<open>i\<close> of an array; an index past the end leaves holes.\<close>

definition put_element :: "jsvalue option list \<Rightarrow> nat \<Rightarrow> jsvalue \<Rightarrow> jsvalue option list" where
  "put_element xs i v =
     (if i < length xs then xs[i := Some v] else xs @ replicate (i - length xs) None @ [Some v])"

text \<open>The container \<open>o\<close> after \<^verbatim>\<open>o[k] = v\<close> (the length of an array is set by \<open>js_set\<close>).\<close>

definition js_store :: "jsvalue \<Rightarrow> jsstring \<Rightarrow> jsvalue \<Rightarrow> jsvalue" where
  "js_store ob k v =
     (case ob of
        Arr xs ps \<Rightarrow>
          (case array_index k of Some i \<Rightarrow> Arr (put_element xs i v) ps
           | None \<Rightarrow> Arr xs (put_prop ps k v))
      | Obj ps \<Rightarrow> Obj (put_prop ps k v)
      | _ \<Rightarrow> ob)"

text \<open>
  \<^verbatim>\<open>o[k] = v\<close> in strict code (a module is strict): a TypeError on \<^verbatim>\<open>undefined\<close>,
  \<^verbatim>\<open>null\<close> and on a primitive, which cannot take a property. The length of an array
  takes a number in range, and a RangeError is thrown for a value that is no such
  number; the module writes there only the fresh empty object.
\<close>

definition js_set :: "jsvalue \<Rightarrow> jsstring \<Rightarrow> jsvalue \<Rightarrow> js_error + jsvalue" where
  "js_set ob k v =
     (case ob of
        Arr xs ps \<Rightarrow>
          (if array_index k = None \<and> k = js ''length'' then
             (case v of
                Num n \<Rightarrow>
                  (if 0 \<le> n \<and> n < 4294967296
                   then Inr (Arr (take (nat n) xs @ replicate (nat n - length xs) None) ps)
                   else Inl RangeError)
              | _ \<Rightarrow> Inl RangeError)
           else Inr (js_store ob k v))
      | Obj ps \<Rightarrow> Inr (js_store ob k v)
      | _ \<Rightarrow> Inl TypeError)"

subsection \<open>getValueByPath and setValueByPath\<close>

text \<open>The loop over the path; \<^verbatim>\<open>break\<close> leaves it with \<^verbatim>\<open>undefined\<close>.\<close>

fun getValueByPath ::
  "(jsstring \<Rightarrow> jsstring) \<Rightarrow> jsvalue \<Rightarrow> path_item list \<Rightarrow> js_error + jsvalue" where
  "getValueByPath to_number value [] = Inr value"
| "getValueByPath to_number value (key # path) =
     (case (if isArray value then js_get value (number_key to_number key)
            else js_get value (prop_key key)) of
        Inl e \<Rightarrow> Inl e
      | Inr value' \<Rightarrow>
          (if value' = Undefined then Inr value'
           else getValueByPath to_number value' path))"

text \<open>
  \<open>setValueByPath\<close> returns nothing and changes \<open>obj\<close> in place; the model returns
  \<open>obj\<close> as it is after the call. The recursive call changes the object held at \<open>key\<close>,
  and the model puts the changed object back at \<open>key\<close>.
\<close>

function setValueByPath ::
  "jsvalue \<Rightarrow> path_item list \<Rightarrow> jsvalue \<Rightarrow> nat \<Rightarrow> js_error + jsvalue" where
  "setValueByPath obj path value i =
     (if i \<ge> length path then Inr obj
      else
        (let key = prop_key (path ! i) in
         case js_get obj key of
           Inl e \<Rightarrow> Inl e
         | Inr old \<Rightarrow>
             (case (if typeof old \<noteq> ''object'' then js_set obj key (Obj []) else Inr obj) of
                Inl e \<Rightarrow> Inl e
              | Inr obj' \<Rightarrow>
                  (if i = length path - 1 then js_set obj' key value
                   else
                     (case js_get obj' key of
                        Inl e \<Rightarrow> Inl e
                      | Inr child \<Rightarrow>
                          (case setValueByPath child path value (i + 1) of
                             Inl e \<Rightarrow> Inl e
                           | Inr child' \<Rightarrow> Inr (js_store obj' key child')))))))"
  by pat_completeness auto
termination
  by (relation "measure (\<lambda>(obj, path, value, i). length path - i)") auto

declare setValueByPath.simps [simp del]

subsection \<open>mergeValues\<close>

text \<open>The own enumerable properties of an array or an object, in the order of
  \<^verbatim>\<open>Object.keys\<close>: for an array the indices of its elements that are no holes, then
  its named properties.\<close>

fun index_entries :: "nat \<Rightarrow> jsvalue option list \<Rightarrow> (jsstring \<times> jsvalue) list" where
  "index_entries i [] = []"
| "index_entries i (None # xs) = index_entries (i + 1) xs"
| "index_entries i (Some v # xs) = (decimal i, v) # index_entries (i + 1) xs"

fun own_entries :: "jsvalue \<Rightarrow> (jsstring \<times> jsvalue) list" where
  "own_entries (Arr xs ps) = index_entries 0 xs @ ps"
| "own_entries (Obj ps) = ps"
| "own_entries v = []"

text \<open>The elements an array spreads into an array literal: a hole gives \<^verbatim>\<open>undefined\<close>.\<close>

fun spread :: "jsvalue \<Rightarrow> jsvalue option list" where
  "spread (Arr xs ps) = map (\<lambda>e. Some (element e)) xs"
| "spread v = []"

lemma index_entries_size:
  "(k, v) \<in> set (index_entries i xs) \<Longrightarrow> size v < Suc (size_list (size_option size) xs)"
  by (induction i xs rule: index_entries.induct) auto

lemma props_size:
  "(k, v) \<in> set ps \<Longrightarrow> size v < Suc (size_list (size_prod (\<lambda>x. 0) size) ps)"
  by (induction ps) auto

lemma own_entries_size: "(k, v) \<in> set (own_entries p) \<Longrightarrow> size v < size p"
  by (cases p) (auto dest: index_entries_size props_size)

definition PROTO :: jsstring where
  "PROTO = js ''__proto__''"

text \<open>
  The version of \<open>mergeValues\<close> in the second half of the file. The loop
  \<^verbatim>\<open>for (const key of Object.keys(patch))\<close> runs over the own entries of \<open>patch\<close>,
  each key with the value \<^verbatim>\<open>patch[key]\<close>, and \<open>result\<close> is the copy
  \<^verbatim>\<open>{ ...value }\<close> that the loop updates: a new object with the own properties of
  \<open>value\<close> and the prototype \<^verbatim>\<open>Object.prototype\<close>.

  Where \<open>result\<close> has no own property \<open>key\<close>, \<^verbatim>\<open>result[key]\<close> is read from
  \<^verbatim>\<open>Object.prototype\<close>. A method found there (\<^verbatim>\<open>toString\<close>, \<^verbatim>\<open>constructor\<close>) is
  a function, which is neither an array nor an object for the two tests, as
  \<^verbatim>\<open>undefined\<close> is, and the assignment creates the own property: the model reads
  \<^verbatim>\<open>undefined\<close>. The key \<^verbatim>\<open>__proto__\<close> is an accessor. Reading it gives
  \<^verbatim>\<open>Object.prototype\<close> itself, an object that is no array and has no enumerable
  property, so that \<open>mergeValues\<close> treats it as it treats \<^verbatim>\<open>{}\<close>. Assigning to it
  calls the setter, which stores no property: handed an object or \<^verbatim>\<open>null\<close> it
  replaces the prototype of \<open>result\<close>, handed anything else it does nothing.

  An object whose prototype was replaced is no value of the tree model. The model
  returns \<open>None\<close> when the call, or a call inside it, replaces the prototype of its
  result, and the tree that the code returns otherwise.
\<close>

function mergeValues :: "jsvalue \<Rightarrow> jsvalue \<Rightarrow> jsvalue option" where
  "mergeValues value patch =
     (if isArray value \<and> isArray patch then
        Some (if isArray patch then Arr (spread value @ spread patch) []
              else Arr (spread value) [])
      else if isObject value \<and> isObject patch then
        map_option Obj
          (fold (\<lambda>(key, patch_key) state.
                   case state of
                     None \<Rightarrow> None
                   | Some result \<Rightarrow>
                       if map_of result key = None \<and> key = PROTO then
                         (case mergeValues (Obj []) patch_key of
                            None \<Rightarrow> None
                          | Some proto \<Rightarrow>
                              if isObject proto \<or> proto = Null then None else Some result)
                       else
                         (case mergeValues (lookup result key) patch_key of
                            None \<Rightarrow> None
                          | Some merged \<Rightarrow> Some (put_prop result key merged)))
             (own_entries patch) (Some (own_entries value)))
      else Some patch)"
  by pat_completeness auto
termination
  by (relation "measure (\<lambda>(value, patch). size patch)") (auto dest: own_entries_size)

declare mergeValues.simps [simp del]



section \<open>mergeValues on a heap\<close>

text \<open>
  Whether \<open>mergeValues\<close> changes its arguments cannot be read off a function on trees.
  Here arrays and objects live in a heap: a value is a primitive or a reference, the heap
  is the list of the objects allocated so far, an address is a position in it, and a new
  object is appended. An assignment to a property overwrites the object at its address.

  A plain object has a prototype and its own properties. The prototype of an object
  literal is \<^verbatim>\<open>Object.prototype\<close>, a builtin object that \<open>mergeValues\<close> reads and
  never changes: it is the value \<open>HObjectPrototype\<close> and is not held in the heap. As
  in the tree model a method inherited from a builtin prototype reads as
  \<^verbatim>\<open>undefined\<close>.
\<close>

type_synonym addr = nat

datatype hvalue =
    HUndefined
  | HNull
  | HBool bool
  | HNum int
  | HStr jsstring
  | HRef addr
  | HObjectPrototype

datatype hobject =
    HArr "hvalue option list" "(jsstring \<times> hvalue) list"
  | HObj hvalue "(jsstring \<times> hvalue) list"

type_synonym heap = "hobject list"

definition heap_at :: "heap \<Rightarrow> addr \<Rightarrow> hobject option" where
  "heap_at h a = (if a < length h then Some (h ! a) else None)"

definition alloc :: "heap \<Rightarrow> hobject \<Rightarrow> addr \<times> heap" where
  "alloc h ob = (length h, h @ [ob])"

definition h_isArray :: "heap \<Rightarrow> hvalue \<Rightarrow> bool" where
  "h_isArray h v =
     (case v of
        HRef a \<Rightarrow> (case heap_at h a of Some (HArr xs ps) \<Rightarrow> True | _ \<Rightarrow> False)
      | _ \<Rightarrow> False)"

text \<open>\<open>isObject\<close>: the type is \<^verbatim>\<open>"object"\<close> and the value is not \<^verbatim>\<open>null\<close>, which
  leaves the references and \<^verbatim>\<open>Object.prototype\<close>.\<close>

definition h_isObject :: "hvalue \<Rightarrow> bool" where
  "h_isObject v = (case v of HRef a \<Rightarrow> True | HObjectPrototype \<Rightarrow> True | _ \<Rightarrow> False)"

definition h_element :: "hvalue option \<Rightarrow> hvalue" where
  "h_element e = (case e of None \<Rightarrow> HUndefined | Some v \<Rightarrow> v)"

fun h_index_entries :: "nat \<Rightarrow> hvalue option list \<Rightarrow> (jsstring \<times> hvalue) list" where
  "h_index_entries i [] = []"
| "h_index_entries i (None # xs) = h_index_entries (i + 1) xs"
| "h_index_entries i (Some v # xs) = (decimal i, v) # h_index_entries (i + 1) xs"

text \<open>The own enumerable properties of the object a value refers to, and the elements
  an array spreads (a reference outside the heap does not occur in a program, and
  \<^verbatim>\<open>Object.prototype\<close> has no enumerable property).\<close>

definition h_own_entries :: "heap \<Rightarrow> hvalue \<Rightarrow> (jsstring \<times> hvalue) list" where
  "h_own_entries h v =
     (case v of
        HRef a \<Rightarrow>
          (case heap_at h a of
             Some (HArr xs ps) \<Rightarrow> h_index_entries 0 xs @ ps
           | Some (HObj pr ps) \<Rightarrow> ps
           | None \<Rightarrow> [])
      | _ \<Rightarrow> [])"

definition h_spread :: "heap \<Rightarrow> hvalue \<Rightarrow> hvalue option list" where
  "h_spread h v =
     (case v of
        HRef a \<Rightarrow>
          (case heap_at h a of
             Some (HArr xs ps) \<Rightarrow> map (\<lambda>e. Some (h_element e)) xs
           | _ \<Rightarrow> [])
      | _ \<Rightarrow> [])"

text \<open>The own property \<open>k\<close> of an object, if it has one: a hole of an array is none.\<close>

definition h_own :: "hobject \<Rightarrow> jsstring \<Rightarrow> hvalue option" where
  "h_own ob k =
     (case ob of
        HArr xs ps \<Rightarrow>
          (case array_index k of
             Some i \<Rightarrow> (if i < length xs then xs ! i else None)
           | None \<Rightarrow> (if k = js ''length'' then Some (HNum (int (length xs))) else map_of ps k))
      | HObj pr ps \<Rightarrow> map_of ps k)"

text \<open>\<^verbatim>\<open>patch[key]\<close> for a key that \<^verbatim>\<open>Object.keys(patch)\<close> has listed: an own
  property of \<open>patch\<close>, for which no prototype is consulted.\<close>

definition h_get_own :: "heap \<Rightarrow> hvalue \<Rightarrow> jsstring \<Rightarrow> hvalue" where
  "h_get_own h v k =
     (case v of
        HRef a \<Rightarrow>
          (case heap_at h a of
             Some ob \<Rightarrow> (case h_own ob k of Some x \<Rightarrow> x | None \<Rightarrow> HUndefined)
           | None \<Rightarrow> HUndefined)
      | _ \<Rightarrow> HUndefined)"

text \<open>
  What the chain of prototypes that starts at \<open>pr\<close> holds for the key \<open>k\<close>: the own
  property of the first object of the chain that has one, or the accessor
  \<^verbatim>\<open>__proto__\<close> of \<^verbatim>\<open>Object.prototype\<close> where the chain reaches it, or nothing where
  the chain ends in \<^verbatim>\<open>null\<close>. The chain of an array goes on to
  \<^verbatim>\<open>Array.prototype\<close> and \<^verbatim>\<open>Object.prototype\<close>. The first argument bounds the walk:
  a chain has no cycle and so no more objects than the heap.
\<close>

datatype inherited_property = Data hvalue | Accessor | Absent

fun inherited :: "nat \<Rightarrow> heap \<Rightarrow> hvalue \<Rightarrow> jsstring \<Rightarrow> inherited_property" where
  "inherited 0 h pr k = Absent"
| "inherited (Suc n) h pr k =
     (case pr of
        HObjectPrototype \<Rightarrow> (if k = PROTO then Accessor else Absent)
      | HRef b \<Rightarrow>
          (case heap_at h b of
             Some (HObj pr' ps) \<Rightarrow>
               (case map_of ps k of Some v \<Rightarrow> Data v | None \<Rightarrow> inherited n h pr' k)
           | Some (HArr xs ps) \<Rightarrow>
               (case h_own (HArr xs ps) k of
                  Some v \<Rightarrow> Data v
                | None \<Rightarrow> (if k = PROTO then Accessor else Absent))
           | None \<Rightarrow> Absent)
      | _ \<Rightarrow> Absent)"

text \<open>\<^verbatim>\<open>result[k]\<close> for the plain object at the address \<open>r\<close>: its own property, or the
  inherited one; the getter of \<^verbatim>\<open>__proto__\<close> returns the prototype of \<open>result\<close>.\<close>

definition h_get :: "heap \<Rightarrow> addr \<Rightarrow> jsstring \<Rightarrow> hvalue" where
  "h_get h r k =
     (case heap_at h r of
        Some (HObj pr ps) \<Rightarrow>
          (case map_of ps k of
             Some v \<Rightarrow> v
           | None \<Rightarrow>
               (case inherited (Suc (length h)) h pr k of
                  Data v \<Rightarrow> v
                | Accessor \<Rightarrow> pr
                | Absent \<Rightarrow> HUndefined))
      | _ \<Rightarrow> HUndefined)"

text \<open>
  \<^verbatim>\<open>result[k] = v\<close> for the plain object at the address \<open>r\<close>: the only assignment
  in \<open>mergeValues\<close>, and \<open>result\<close> is the object it created by \<^verbatim>\<open>{ ...value }\<close>.
  Where \<open>result\<close> has no own property \<open>k\<close> and inherits the accessor \<^verbatim>\<open>__proto__\<close>,
  the setter is called: it makes an object or \<^verbatim>\<open>null\<close> the prototype of \<open>result\<close>
  and ignores any other value. (The setter refuses a prototype whose chain holds
  \<open>result\<close>; the value it is handed here is \<^verbatim>\<open>null\<close> or an object created after
  \<open>result\<close>.) In every other case the value becomes an own property of \<open>result\<close>.
\<close>

definition h_put :: "heap \<Rightarrow> addr \<Rightarrow> jsstring \<Rightarrow> hvalue \<Rightarrow> heap" where
  "h_put h r k v =
     (case heap_at h r of
        Some (HObj pr ps) \<Rightarrow>
          (if map_of ps k = None \<and> inherited (Suc (length h)) h pr k = Accessor then
             (if h_isObject v \<or> v = HNull then h[r := HObj v ps] else h)
           else h[r := HObj pr (put_prop ps k v)])
      | _ \<Rightarrow> h)"

text \<open>
  \<open>mergeValues\<close> (second half of the file) on the heap. The first argument bounds the
  depth of the recursion: a heap may hold a cycle, on which the function does not return,
  and \<open>None\<close> says that the bound was reached. \<open>merge_keys\<close> is the loop over
  \<^verbatim>\<open>Object.keys(patch)\<close>, the keys having been read before the loop; the loop reads
  \<^verbatim>\<open>result[key]\<close> and \<^verbatim>\<open>patch[key]\<close> from the heap as it is at that iteration.
\<close>

fun mergeValuesH :: "nat \<Rightarrow> heap \<Rightarrow> hvalue \<Rightarrow> hvalue \<Rightarrow> (hvalue \<times> heap) option"
  and merge_keys :: "nat \<Rightarrow> heap \<Rightarrow> addr \<Rightarrow> hvalue \<Rightarrow> jsstring list \<Rightarrow> heap option" where
  "mergeValuesH 0 h value patch = None"
| "mergeValuesH (Suc n) h value patch =
     (if h_isArray h value \<and> h_isArray h patch then
        (let (a, h') = alloc h (HArr (if h_isArray h patch
                                       then h_spread h value @ h_spread h patch
                                       else h_spread h value) [])
         in Some (HRef a, h'))
      else if h_isObject value \<and> h_isObject patch then
        (let (r, h') = alloc h (HObj HObjectPrototype (h_own_entries h value))
         in case merge_keys n h' r patch (map fst (h_own_entries h' patch)) of
              None \<Rightarrow> None
            | Some h'' \<Rightarrow> Some (HRef r, h''))
      else Some (patch, h))"
| "merge_keys n h r patch [] = Some h"
| "merge_keys n h r patch (key # keys) =
     (case mergeValuesH n h (h_get h r key) (h_get_own h patch key) of
        None \<Rightarrow> None
      | Some (m, h') \<Rightarrow> merge_keys n (h_put h' r key m) r patch keys)"

text \<open>The object at an address is a plain object.\<close>

definition h_isPlain :: "heap \<Rightarrow> addr \<Rightarrow> bool" where
  "h_isPlain h a = (case heap_at h a of Some (HObj pr ps) \<Rightarrow> True | _ \<Rightarrow> False)"

text \<open>
  A heap without a cycle through properties and elements: every reference that an
  object holds there points into the heap, to an object of smaller rank. On such a heap
  the depth of the recursion is bounded by the rank of \<open>patch\<close>.
\<close>

definition ranked :: "(addr \<Rightarrow> nat) \<Rightarrow> heap \<Rightarrow> bool" where
  "ranked rank h =
     (\<forall>a \<in> set [0..<length h]. \<forall>(k, v) \<in> set (h_own_entries h (HRef a)).
        case v of HRef b \<Rightarrow> b < length h \<and> rank b < rank a | _ \<Rightarrow> True)"

definition in_heap :: "heap \<Rightarrow> hvalue \<Rightarrow> bool" where
  "in_heap h v = (case v of HRef a \<Rightarrow> a < length h | _ \<Rightarrow> True)"

definition fuel :: "(addr \<Rightarrow> nat) \<Rightarrow> hvalue \<Rightarrow> nat" where
  "fuel rank v = (case v of HRef a \<Rightarrow> rank a + 2 | _ \<Rightarrow> 1)"

section \<open>Properties of the path normalizer\<close>

text \<open>
  C1. The claim: \<open>normalize\<close> never raises, and a malformed percent-escape is ignored.
  The code: the decoding is guarded by \<^verbatim>\<open>try ... finally\<close> without a \<^verbatim>\<open>catch\<close>,
  so on the path \<open>%\<close> (a lone percent sign) the URIError of the decoder leaves
  \<open>normalize\<close>; no string is returned.
\<close>

theorem normalize_lone_percent_raises:
  "normalize (js ''%'') = Inl URIError"
  by code_simp

section \<open>Properties of the reference resolver\<close>

lemma split_no_sep: "c \<notin> set a \<Longrightarrow> split c a = [a]"
  by (induction a) (auto simp: Let_def)

lemma split_append_sep: "c \<notin> set a \<Longrightarrow> split c (a @ c # s) = a # split c s"
  by (induction a) (auto simp: Let_def)

lemma validURL_empty: "validURL [] = False"
  by code_simp

lemma relativePath_empty: "relativePath [] (Some b) = normalize b"
  by (cases b) (simp_all add: relativePath_def falsy_def)

text \<open>
  C9. A reference that starts with \<open>#\<close> has the empty source path, which is no URL, and
  \<open>relativePath\<close> then normalizes the base path: the file path of the result is the
  normalized base path (and \<open>parseRef\<close> throws exactly when that normalization does).
  In particular \<^verbatim>\<open>parseRef("#/x", "dir/base.yaml").filePath\<close> is \<^verbatim>\<open>"dir/base.yaml"\<close>.
\<close>

theorem parseRef_empty_source_path:
  "map_sum id filePath (parseRef url_href (HASH # r) basePath) = normalize basePath
   \<and> map_sum id filePath (parseRef url_href (js ''#/x'') (js ''dir/base.yaml''))
       = Inr (js ''dir/base.yaml'')"
proof
  have "split HASH (HASH # r) = [] # split HASH r"
    by simp
  then show "map_sum id filePath (parseRef url_href (HASH # r) basePath) = normalize basePath"
    by (cases "normalize basePath")
       (simp_all add: parseRef_def validURL_empty relativePath_empty Let_def)
next
  show "map_sum id filePath (parseRef url_href (js ''#/x'') (js ''dir/base.yaml''))
       = Inr (js ''dir/base.yaml'')"
    by code_simp
qed

text \<open>
  C4, as the claim states it: the whole remainder after the first \<open>#\<close> is the pointer.
  The code splits on every \<open>#\<close> and destructures the first two parts, so for
  \<^verbatim>\<open>"a#b#c"\<close> the pointer is \<^verbatim>\<open>"b"\<close>, not \<^verbatim>\<open>"b#c"\<close>.
\<close>

theorem parseRef_second_hash_counterexample:
  "\<forall>url_href. map_sum id pointer (parseRef url_href (js ''a#b#c'') []) = Inr (js ''b'')
     \<and> js ''b'' \<noteq> js ''b#c''"
proof (intro allI conjI)
  fix url_href :: "jsstring \<Rightarrow> js_error + jsstring"
  show "map_sum id pointer (parseRef url_href (js ''a#b#c'') []) = Inr (js ''b'')"
    by code_simp
  show "js ''b'' \<noteq> js ''b#c''"
    by code_simp
qed

text \<open>
  C4, amended. \<open>parseRef\<close> uses the first two parts of the split on \<open>#\<close>: the part
  before the first \<open>#\<close> is the source path, the part between the first and the second
  \<open>#\<close> (up to the end when there is no second one) is the raw fragment, and the text from
  a second \<open>#\<close> on is dropped. A reference without \<open>#\<close> has no fragment.
\<close>

theorem parseRef_uses_first_two_parts:
  assumes "HASH \<notin> set a" and "HASH \<notin> set b"
  shows "parseRef url_href a basePath = resolve_source url_href a [] basePath
    \<and> parseRef url_href (a @ HASH # b) basePath = resolve_source url_href a b basePath
    \<and> parseRef url_href (a @ HASH # b @ HASH # rest) basePath
         = resolve_source url_href a b basePath"
proof (intro conjI)
  show "parseRef url_href a basePath = resolve_source url_href a [] basePath"
    using assms unfolding parseRef_def resolve_source_def Let_def
    by (simp add: split_no_sep falsy_def split: sum.split)
  show "parseRef url_href (a @ HASH # b) basePath = resolve_source url_href a b basePath"
    using assms unfolding parseRef_def resolve_source_def Let_def
    by (simp add: split_append_sep split_no_sep falsy_def split: sum.split)
  have "split HASH (a @ HASH # b @ HASH # rest) = a # b # split HASH rest"
    using assms by (simp add: split_append_sep)
  then show "parseRef url_href (a @ HASH # b @ HASH # rest) basePath
           = resolve_source url_href a b basePath"
    unfolding parseRef_def resolve_source_def Let_def by (simp add: falsy_def split: sum.split)
qed

theorem parseRef_uses_first_two_parts_witness:
  "HASH \<notin> set (js ''a'') \<and> HASH \<notin> set (js ''b'')
   \<and> parseRef Inr (js ''a'' @ HASH # js ''b'' @ HASH # js ''c'') []
       = Inr \<lparr>filePath = js ''a'', pointer = js ''b'', normalized = js ''a#b''\<rparr>"
proof -
  have h1: "HASH \<notin> set (js ''a'')" by code_simp
  have h2: "HASH \<notin> set (js ''b'')" by code_simp
  have r: "resolve_source Inr (js ''a'') (js ''b'') []
             = Inr \<lparr>filePath = js ''a'', pointer = js ''b'', normalized = js ''a#b''\<rparr>"
    by code_simp
  show ?thesis
    using parseRef_uses_first_two_parts [OF h1 h2, of Inr "[]" "js ''c''"] h1 h2 r by simp
qed

section \<open>Properties of the tree accessor\<close>

text \<open>The two examples of the specification.\<close>

lemma getValueByPath_examples:
  "getValueByPath to_number
     (Obj [(js ''a'', Arr [Some (Num 1), Some (Num 2), Some (Num 3)] [])])
     [PStr (js ''a''), PNum 1] = Inr (Num 2)"
  "getValueByPath to_number (Obj []) [PStr (js ''a''), PStr (js ''b'')] = Inr Undefined"
  by code_simp+

text \<open>A scalar on the way is indexed without an exception.\<close>

lemma getValueByPath_scalar:
  "getValueByPath to_number (Obj [(js ''a'', Num 5)]) [PStr (js ''a''), PStr (js ''b'')]
     = Inr Undefined"
  by code_simp

text \<open>
  C2. The claim: \<open>getValueByPath\<close> never throws, also when the root or an intermediate
  value is \<^verbatim>\<open>null\<close>. The code leaves the loop on \<^verbatim>\<open>undefined\<close> only: on
  \<^verbatim>\<open>{a: null}\<close> with the path \<^verbatim>\<open>["a", "b"]\<close> the first step yields \<^verbatim>\<open>null\<close>, the
  loop goes on and indexing \<^verbatim>\<open>null\<close> throws a TypeError.
\<close>

theorem getValueByPath_null_raises:
  "getValueByPath to_number (Obj [(js ''a'', Null)]) [PStr (js ''a''), PStr (js ''b'')]
     = Inl TypeError"
  by code_simp

text \<open>The root is indexed before any test, so \<^verbatim>\<open>undefined\<close> and \<^verbatim>\<open>null\<close> as the root
  throw as well.\<close>

lemma getValueByPath_absent_root:
  "getValueByPath to_number Undefined (key # path) = Inl TypeError"
  "getValueByPath to_number Null (key # path) = Inl TypeError"
  by (simp_all add: isArray_def js_get_def)

text \<open>A value that blocks the path and is no object is replaced by an empty object.\<close>

lemma setValueByPath_coerces_scalar:
  "setValueByPath (Obj [(js ''a'', Num 5)]) [PStr (js ''a''), PStr (js ''b'')] (Num 1) 0
     = Inr (Obj [(js ''a'', Obj [(js ''b'', Num 1)])])"
  by code_simp

text \<open>
  C3. The claim: \<open>setValueByPath\<close> always places the value, a \<^verbatim>\<open>null\<close> on the path
  being replaced by an empty object. The code tests \<^verbatim>\<open>typeof obj[key] !== "object"\<close>,
  and \<^verbatim>\<open>typeof null\<close> is \<^verbatim>\<open>"object"\<close>: on \<^verbatim>\<open>{a: null}\<close> with the path
  \<^verbatim>\<open>["a", "b"]\<close> the \<^verbatim>\<open>null\<close> stays, the recursive call receives it as \<open>obj\<close>
  and reading \<^verbatim>\<open>obj[key]\<close> throws a TypeError.
\<close>

theorem setValueByPath_null_raises:
  "setValueByPath (Obj [(js ''a'', Null)]) [PStr (js ''a''), PStr (js ''b'')] (Num 1) 0
     = Inl TypeError"
  by code_simp

section \<open>Properties of the deep merge\<close>


















text \<open>A key \<^verbatim>\<open>__proto__\<close> of the patch is not stored: a number there is ignored, and
  an object there becomes the prototype of the result.\<close>

lemma mergeValues_proto_key:
  "mergeValues (Obj []) (Obj [(PROTO, Num 1), (js ''a'', Num 1)]) = Some (Obj [(js ''a'', Num 1)])"
  "mergeValues (Obj []) (Obj [(PROTO, Obj [(js ''a'', Num 1)])]) = None"
  by code_simp+




section \<open>mergeValues leaves its arguments unchanged\<close>

lemma take_h_put: "b \<le> r \<Longrightarrow> take b (h_put h r k v) = take b h"
  by (simp add: h_put_def split: option.split hobject.split)

lemma length_h_put: "length (h_put h r k v) = length h"
  by (simp add: h_put_def split: option.split hobject.split)

lemma h_isPlain_h_put: "h_isPlain h r \<Longrightarrow> h_isPlain (h_put h r k v) r"
  by (auto simp: h_isPlain_def h_put_def heap_at_def split: option.splits hobject.splits if_splits)

lemma take_prefix_eq:
  assumes "take (length h) h1 = h" and "b \<le> length h"
  shows "take b h1 = take b h"
proof -
  have "take b (take (length h) h1) = take b h1"
    using assms(2) by (simp add: min_def)
  then show ?thesis using assms(1) by simp
qed

lemma prefix_length: "take (length h) h1 = h \<Longrightarrow> length h \<le> length h1"
proof -
  assume "take (length h) h1 = h"
  then have "length (take (length h) h1) = length h" by simp
  then show ?thesis by (simp add: min_def split: if_splits)
qed

lemma heap_at_prefix:
  assumes "take (length h) h1 = h" and "a < length h"
  shows "heap_at h1 a = heap_at h a"
proof -
  have "length h \<le> length h1"
    using assms(1) by (rule prefix_length)
  moreover have "h1 ! a = h ! a"
    using assms by (metis nth_take)
  ultimately show ?thesis
    using assms(2) by (simp add: heap_at_def)
qed

lemma h_isPlain_prefix:
  "take (length h) h1 = h \<Longrightarrow> r < length h \<Longrightarrow> h_isPlain h r \<Longrightarrow> h_isPlain h1 r"
  by (simp add: h_isPlain_def heap_at_prefix)

lemma h_isArray_isObject: "h_isArray h v \<Longrightarrow> h_isObject v"
  by (auto simp: h_isArray_def h_isObject_def split: hvalue.splits)

text \<open>
  The invariant of the two functions. A call of \<open>mergeValuesH\<close> only appends to the
  heap. The loop writes to the object at \<open>r\<close> and appends: everything below \<open>r\<close> that
  was in the heap when the loop started stays as it was, and the object at \<open>r\<close> stays a
  plain object.
\<close>

lemma merge_frame_aux:
  shows "mergeValuesH n h v p = Some (m, h') \<Longrightarrow>
      length h \<le> length h' \<and> take (length h) h' = h
      \<and> (h_isObject v \<and> h_isObject p \<longrightarrow>
            m = HRef (length h) \<and> length h < length h'
            \<and> (if h_isArray h v \<and> h_isArray h p
               then h' = h @ [HArr (h_spread h v @ h_spread h p) []]
               else h_isPlain h' (length h)))
      \<and> (\<not> (h_isObject v \<and> h_isObject p) \<longrightarrow> m = p \<and> h' = h)"
   and "merge_keys n h r p keys = Some h'' \<Longrightarrow>
      length h \<le> length h'' \<and> (\<forall>b \<le> r. b \<le> length h \<longrightarrow> take b h'' = take b h)
      \<and> (r < length h \<and> h_isPlain h r \<longrightarrow> h_isPlain h'' r)"
proof (induction n h v p and n h r p keys arbitrary: m h' and h''
    rule: mergeValuesH_merge_keys.induct)
  case (1 h v p)
  then show ?case by simp
next
  case (2 n h v p)
  show ?case
  proof (cases "h_isArray h v \<and> h_isArray h p")
    case True
    then have "h_isObject v \<and> h_isObject p"
      by (auto intro: h_isArray_isObject)
    with True "2.prems" show ?thesis
      by (auto simp: alloc_def)
  next
    case False
    show ?thesis
    proof (cases "h_isObject v \<and> h_isObject p")
      case True
      let ?h1 = "h @ [HObj HObjectPrototype (h_own_entries h v)]"
      from "2.prems" False True obtain h2 where
        mk: "merge_keys n ?h1 (length h) p (map fst (h_own_entries ?h1 p)) = Some h2"
        and m: "m = HRef (length h)" "h' = h2"
        by (auto simp: alloc_def split: option.splits)
      have al: "(length h, ?h1) = alloc h (HObj HObjectPrototype (h_own_entries h v))"
        by (simp add: alloc_def)
      have pl: "h_isPlain ?h1 (length h)"
        by (simp add: h_isPlain_def heap_at_def)
      have "length ?h1 \<le> length h2
          \<and> (\<forall>b \<le> length h. b \<le> length ?h1 \<longrightarrow> take b h2 = take b ?h1)
          \<and> (length h < length ?h1 \<and> h_isPlain ?h1 (length h) \<longrightarrow> h_isPlain h2 (length h))"
        by (rule "2.IH" [OF False True refl al mk])
      then show ?thesis
        using m pl True False by auto
    next
      case nobj: False
      with False "2.prems" show ?thesis by auto
    qed
  qed
next
  case (3 n h r p)
  then show ?case by simp
next
  case (4 n h r p key keys)
  from "4.prems" obtain m1 h1 where
    mv: "mergeValuesH n h (h_get h r key) (h_get_own h p key) = Some (m1, h1)"
    and mk: "merge_keys n (h_put h1 r key m1) r p keys = Some h''"
    by (auto split: option.splits)
  from "4.IH"(1) [OF mv] have f1: "length h \<le> length h1" "take (length h) h1 = h"
    by simp_all
  from "4.IH"(2) [OF mv _ mk] have
    f2: "length (h_put h1 r key m1) \<le> length h''"
    and f3: "\<forall>b \<le> r. b \<le> length (h_put h1 r key m1)
               \<longrightarrow> take b h'' = take b (h_put h1 r key m1)"
    and f4: "r < length (h_put h1 r key m1) \<and> h_isPlain (h_put h1 r key m1) r
               \<longrightarrow> h_isPlain h'' r"
    by simp_all
  show ?case
  proof (intro conjI allI impI)
    show "length h \<le> length h''"
      using f1 f2 by (simp add: length_h_put)
  next
    fix b assume b: "b \<le> r" "b \<le> length h"
    then have "take b h'' = take b (h_put h1 r key m1)"
      using f3 f1 by (simp add: length_h_put)
    also have "\<dots> = take b h1"
      using b by (simp add: take_h_put)
    also have "\<dots> = take b h"
      using f1 b by (simp add: take_prefix_eq)
    finally show "take b h'' = take b h" .
  next
    assume a: "r < length h \<and> h_isPlain h r"
    then have "h_isPlain h1 r"
      using f1 by (simp add: h_isPlain_prefix)
    then have "h_isPlain (h_put h1 r key m1) r"
      by (rule h_isPlain_h_put)
    moreover have "r < length (h_put h1 r key m1)"
      using a f1 by (simp add: length_h_put)
    ultimately show "h_isPlain h'' r"
      using f4 by simp
  qed
qed

text \<open>
  The call returns. On a heap without a cycle, a value that \<open>patch\<close> holds has a smaller
  rank than \<open>patch\<close>; the objects that were in the heap when the call started do not
  change, so that this stays true while the call appends to the heap.
\<close>

lemma ranked_entry:
  assumes "ranked rank h" and "a < length h" and "(k, HRef b) \<in> set (h_own_entries h (HRef a))"
  shows "b < length h \<and> rank b < rank a"
  using assms unfolding ranked_def by fastforce

lemma h_index_entries_mem:
  "Some v \<in> set xs \<Longrightarrow> \<exists>k. (k, v) \<in> set (h_index_entries i xs)"
  by (induction i xs rule: h_index_entries.induct) auto

lemma h_own_entry:
  assumes "heap_at h a = Some ob" and "h_own ob key = Some (HRef b)"
  shows "\<exists>k. (k, HRef b) \<in> set (h_own_entries h (HRef a))"
proof (cases ob)
  case (HArr xs ps)
  show ?thesis
  proof (cases "array_index key")
    case None
    with assms HArr have "map_of ps key = Some (HRef b)"
      by (simp add: h_own_def split: if_splits)
    then have "(key, HRef b) \<in> set ps" by (rule map_of_SomeD)
    then show ?thesis
      using assms(1) HArr by (auto simp: h_own_entries_def)
  next
    case (Some i)
    with assms HArr have "i < length xs" "xs ! i = Some (HRef b)"
      by (simp_all add: h_own_def split: if_splits)
    then have "Some (HRef b) \<in> set xs" by (metis nth_mem)
    then obtain k where "(k, HRef b) \<in> set (h_index_entries 0 xs)"
      using h_index_entries_mem by blast
    then show ?thesis
      using assms(1) HArr by (auto simp: h_own_entries_def)
  qed
next
  case (HObj pr ps)
  with assms have "map_of ps key = Some (HRef b)"
    by (simp add: h_own_def)
  then have "(key, HRef b) \<in> set ps" by (rule map_of_SomeD)
  then show ?thesis
    using assms(1) HObj by (auto simp: h_own_entries_def)
qed

lemma h_get_own_ranked:
  assumes r: "ranked rank h0" and a: "a < length h0" and t: "take (length h0) h = h0"
    and g: "h_get_own h (HRef a) key = HRef b"
  shows "b < length h0 \<and> rank b < rank a"
proof -
  have at: "heap_at h a = heap_at h0 a"
    using t a by (rule heap_at_prefix)
  have at0: "heap_at h0 a = Some (h0 ! a)"
    using a by (simp add: heap_at_def)
  from g at at0 have "h_own (h0 ! a) key = Some (HRef b)"
    by (simp add: h_get_own_def split: option.splits)
  with at0 obtain k where "(k, HRef b) \<in> set (h_own_entries h0 (HRef a))"
    using h_own_entry by blast
  with r a show ?thesis by (rule ranked_entry)
qed

lemma child_fuel:
  assumes r: "ranked rank h0" and t: "take (length h0) h = h0"
    and p: "p = HRef a" "a < length h0" "rank a + 2 \<le> Suc n"
  shows "in_heap h0 (h_get_own h p key) \<and> fuel rank (h_get_own h p key) \<le> n"
proof (cases "h_get_own h p key")
  case (HRef b)
  then have "b < length h0 \<and> rank b < rank a"
    using h_get_own_ranked [OF r p(2) t] p(1) by simp
  then show ?thesis
    using HRef p(3) by (simp add: in_heap_def fuel_def)
qed (use p(3) in \<open>simp_all add: in_heap_def fuel_def\<close>)

lemma merge_returns_aux:
  assumes r: "ranked rank h0"
  shows "take (length h0) h = h0 \<Longrightarrow> in_heap h0 p \<Longrightarrow> fuel rank p \<le> n \<Longrightarrow>
           \<exists>m h'. mergeValuesH n h v p = Some (m, h')"
    and "take (length h0) h = h0 \<Longrightarrow> length h0 \<le> r' \<Longrightarrow>
           keys = [] \<or> (\<exists>a. p = HRef a \<and> a < length h0 \<and> rank a + 2 \<le> Suc n) \<Longrightarrow>
           \<exists>h''. merge_keys n h r' p keys = Some h''"
proof (induction n h v p and n h r' p keys rule: mergeValuesH_merge_keys.induct)
  case (1 h v p)
  then show ?case by (simp add: fuel_def split: hvalue.splits)
next
  case (2 n h v p)
  have len: "length h0 \<le> length h"
    using "2.prems"(1) by (rule prefix_length)
  show ?case
  proof (cases "h_isArray h v \<and> h_isArray h p")
    case True
    then show ?thesis by (simp add: alloc_def)
  next
    case False
    show ?thesis
    proof (cases "h_isObject v \<and> h_isObject p")
      case True
      let ?h1 = "h @ [HObj HObjectPrototype (h_own_entries h v)]"
      have al: "(length h, ?h1) = alloc h (HObj HObjectPrototype (h_own_entries h v))"
        by (simp add: alloc_def)
      have t1: "take (length h0) ?h1 = h0"
        using "2.prems"(1) len by simp
      have k: "map fst (h_own_entries ?h1 p) = []
          \<or> (\<exists>a. p = HRef a \<and> a < length h0 \<and> rank a + 2 \<le> Suc n)"
      proof (cases p)
        case (HRef a)
        then show ?thesis
          using "2.prems"(2,3) by (simp add: in_heap_def fuel_def)
      qed (simp_all add: h_own_entries_def)
      obtain h2 where
        "merge_keys n ?h1 (length h) p (map fst (h_own_entries ?h1 p)) = Some h2"
        using "2.IH" [OF False True refl al t1 len k] by blast
      then show ?thesis
        using False True by (simp add: alloc_def)
    next
      case nobj: False
      with False show ?thesis by auto
    qed
  qed
next
  case (3 n h r' p)
  then show ?case by simp
next
  case (4 n h r' p key keys)
  from "4.prems"(3) obtain a where
    p: "p = HRef a" "a < length h0" "rank a + 2 \<le> Suc n"
    by auto
  have c: "in_heap h0 (h_get_own h p key) \<and> fuel rank (h_get_own h p key) \<le> n"
    using r "4.prems"(1) p by (rule child_fuel)
  obtain m1 h1 where
    mv: "mergeValuesH n h (h_get h r' key) (h_get_own h p key) = Some (m1, h1)"
    using "4.IH"(1) [OF "4.prems"(1)] c by blast
  have len: "length h0 \<le> length h"
    using "4.prems"(1) by (rule prefix_length)
  have "take (length h) h1 = h"
    using merge_frame_aux(1) [OF mv] by simp
  then have "take (length h0) h1 = take (length h0) h"
    using len by (rule take_prefix_eq)
  then have t1: "take (length h0) (h_put h1 r' key m1) = h0"
    using "4.prems"(1,2) by (simp add: take_h_put)
  have "keys = [] \<or> (\<exists>a. p = HRef a \<and> a < length h0 \<and> rank a + 2 \<le> Suc n)"
    using p by simp
  then obtain h2 where "merge_keys n (h_put h1 r' key m1) r' p keys = Some h2"
    using "4.IH"(2) [OF mv refl t1 "4.prems"(2)] by blast
  then show ?case
    using mv by simp
qed


text \<open>
  A key \<^verbatim>\<open>__proto__\<close> of the patch on the heap: \<^verbatim>\<open>{}\<close> merged with
  \<^verbatim>\<open>{"__proto__": {"a": {"x": 1}}, "a": {"y": 2}}\<close>. The result, at the address 5, has
  the one own property \<^verbatim>\<open>a\<close> and the new object at 6 as its prototype; the value
  merged at \<^verbatim>\<open>a\<close> is the one inherited from that prototype. The five objects of
  before the call are unchanged.
\<close>

lemma mergeValuesH_proto_key:
  "mergeValuesH 4
     [HObj HObjectPrototype [],
      HObj HObjectPrototype [(PROTO, HRef 2), (js ''a'', HRef 4)],
      HObj HObjectPrototype [(js ''a'', HRef 3)],
      HObj HObjectPrototype [(js ''x'', HNum 1)],
      HObj HObjectPrototype [(js ''y'', HNum 2)]]
     (HRef 0) (HRef 1)
   = Some (HRef 5,
     [HObj HObjectPrototype [],
      HObj HObjectPrototype [(PROTO, HRef 2), (js ''a'', HRef 4)],
      HObj HObjectPrototype [(js ''a'', HRef 3)],
      HObj HObjectPrototype [(js ''x'', HNum 1)],
      HObj HObjectPrototype [(js ''y'', HNum 2)],
      HObj (HRef 6) [(js ''a'', HRef 7)],
      HObj HObjectPrototype [(js ''a'', HRef 3)],
      HObj HObjectPrototype [(js ''x'', HNum 1), (js ''y'', HNum 2)]])"
  by code_simp

text \<open>A number at the key \<^verbatim>\<open>__proto__\<close> is ignored by the setter, and a value
  that has the own property \<^verbatim>\<open>__proto__\<close> passes it on as an own property.\<close>

lemma mergeValuesH_proto_key_ignored:
  "mergeValuesH 2
     [HObj HObjectPrototype [], HObj HObjectPrototype [(PROTO, HNum 1), (js ''a'', HNum 2)]]
     (HRef 0) (HRef 1)
   = Some (HRef 2,
     [HObj HObjectPrototype [], HObj HObjectPrototype [(PROTO, HNum 1), (js ''a'', HNum 2)],
      HObj HObjectPrototype [(js ''a'', HNum 2)]])"
  "mergeValuesH 2
     [HObj HObjectPrototype [(PROTO, HNum 1)], HObj HObjectPrototype [(PROTO, HNum 2)]]
     (HRef 0) (HRef 1)
   = Some (HRef 2,
     [HObj HObjectPrototype [(PROTO, HNum 1)], HObj HObjectPrototype [(PROTO, HNum 2)],
      HObj HObjectPrototype [(PROTO, HNum 2)]])"
  by code_simp+

text \<open>
  C10. When \<open>mergeValues\<close> returns, the heap is the heap of before the call followed by
  new objects: no object that existed before the call, so neither \<open>value\<close> nor \<open>patch\<close>
  nor anything nested in them, has been changed. Where \<open>value\<close> and \<open>patch\<close> are
  combined (both are objects), the result is a new object, the one that the call
  allocated first: for two arrays the array of their elements, the only object appended,
  and a plain object otherwise. Where they are not combined the result is \<open>patch\<close> and
  the heap is the same. The call does return: on a heap without a cycle through
  properties and elements, where \<open>patch\<close> lies in the heap, with a bound on the depth
  of two more than the rank of \<open>patch\<close>.
\<close>

theorem mergeValues_copy_on_write:
  "(mergeValuesH n h v p = Some (m, h') \<longrightarrow>
      length h \<le> length h' \<and> take (length h) h' = h
      \<and> (h_isObject v \<and> h_isObject p \<longrightarrow>
            m = HRef (length h) \<and> length h < length h'
            \<and> (if h_isArray h v \<and> h_isArray h p
               then h' = h @ [HArr (h_spread h v @ h_spread h p) []]
               else h_isPlain h' (length h)))
      \<and> (\<not> (h_isObject v \<and> h_isObject p) \<longrightarrow> m = p \<and> h' = h))
   \<and> (ranked rank h \<and> in_heap h p \<and> fuel rank p \<le> d \<longrightarrow>
        (\<exists>m' h''. mergeValuesH d h v p = Some (m', h'')))"
proof (rule conjI)
  show "mergeValuesH n h v p = Some (m, h') \<longrightarrow>
      length h \<le> length h' \<and> take (length h) h' = h
      \<and> (h_isObject v \<and> h_isObject p \<longrightarrow>
            m = HRef (length h) \<and> length h < length h'
            \<and> (if h_isArray h v \<and> h_isArray h p
               then h' = h @ [HArr (h_spread h v @ h_spread h p) []]
               else h_isPlain h' (length h)))
      \<and> (\<not> (h_isObject v \<and> h_isObject p) \<longrightarrow> m = p \<and> h' = h)"
    by (rule impI) (rule merge_frame_aux)
next
  show "ranked rank h \<and> in_heap h p \<and> fuel rank p \<le> d \<longrightarrow>
        (\<exists>m' h''. mergeValuesH d h v p = Some (m', h''))"
  proof (rule impI)
    assume a: "ranked rank h \<and> in_heap h p \<and> fuel rank p \<le> d"
    have "take (length h) h = h" by simp
    with a show "\<exists>m' h''. mergeValuesH d h v p = Some (m', h'')"
      using merge_returns_aux(1) [of rank h h p d v] by blast
  qed
qed

text \<open>The witness merges \<^verbatim>\<open>{a: 1, b: {x: 1}}\<close> with \<^verbatim>\<open>{b: {y: 2}, c: 4}\<close>. The two
  outer objects have the rank 1 and the two inner ones the rank 0: the call returns
  within the depth 3 and appends two objects to the four of the heap.\<close>

theorem mergeValues_copy_on_write_witness:
  "ranked (\<lambda>a. 1 - a mod 2)
     [HObj HObjectPrototype [(js ''a'', HNum 1), (js ''b'', HRef 1)],
      HObj HObjectPrototype [(js ''x'', HNum 1)],
      HObj HObjectPrototype [(js ''b'', HRef 3), (js ''c'', HNum 4)],
      HObj HObjectPrototype [(js ''y'', HNum 2)]]
   \<and> in_heap
     [HObj HObjectPrototype [(js ''a'', HNum 1), (js ''b'', HRef 1)],
      HObj HObjectPrototype [(js ''x'', HNum 1)],
      HObj HObjectPrototype [(js ''b'', HRef 3), (js ''c'', HNum 4)],
      HObj HObjectPrototype [(js ''y'', HNum 2)]] (HRef 2)
   \<and> fuel (\<lambda>a. 1 - a mod 2) (HRef 2) \<le> 3
   \<and> h_isObject (HRef 0) \<and> h_isObject (HRef 2)
   \<and> mergeValuesH 3
     [HObj HObjectPrototype [(js ''a'', HNum 1), (js ''b'', HRef 1)],
      HObj HObjectPrototype [(js ''x'', HNum 1)],
      HObj HObjectPrototype [(js ''b'', HRef 3), (js ''c'', HNum 4)],
      HObj HObjectPrototype [(js ''y'', HNum 2)]]
     (HRef 0) (HRef 2)
   = Some (HRef 4,
       [HObj HObjectPrototype [(js ''a'', HNum 1), (js ''b'', HRef 1)],
        HObj HObjectPrototype [(js ''x'', HNum 1)],
        HObj HObjectPrototype [(js ''b'', HRef 3), (js ''c'', HNum 4)],
        HObj HObjectPrototype [(js ''y'', HNum 2)],
        HObj HObjectPrototype [(js ''a'', HNum 1), (js ''b'', HRef 5), (js ''c'', HNum 4)],
        HObj HObjectPrototype [(js ''x'', HNum 1), (js ''y'', HNum 2)]])
   \<and> take 4
       [HObj HObjectPrototype [(js ''a'', HNum 1), (js ''b'', HRef 1)],
        HObj HObjectPrototype [(js ''x'', HNum 1)],
        HObj HObjectPrototype [(js ''b'', HRef 3), (js ''c'', HNum 4)],
        HObj HObjectPrototype [(js ''y'', HNum 2)],
        HObj HObjectPrototype [(js ''a'', HNum 1), (js ''b'', HRef 5), (js ''c'', HNum 4)],
        HObj HObjectPrototype [(js ''x'', HNum 1), (js ''y'', HNum 2)]]
     = [HObj HObjectPrototype [(js ''a'', HNum 1), (js ''b'', HRef 1)],
        HObj HObjectPrototype [(js ''x'', HNum 1)],
        HObj HObjectPrototype [(js ''b'', HRef 3), (js ''c'', HNum 4)],
        HObj HObjectPrototype [(js ''y'', HNum 2)]]
   \<and> h_isPlain
       [HObj HObjectPrototype [(js ''a'', HNum 1), (js ''b'', HRef 1)],
        HObj HObjectPrototype [(js ''x'', HNum 1)],
        HObj HObjectPrototype [(js ''b'', HRef 3), (js ''c'', HNum 4)],
        HObj HObjectPrototype [(js ''y'', HNum 2)],
        HObj HObjectPrototype [(js ''a'', HNum 1), (js ''b'', HRef 5), (js ''c'', HNum 4)],
        HObj HObjectPrototype [(js ''x'', HNum 1), (js ''y'', HNum 2)]] 4"
proof -
  let ?h = "[HObj HObjectPrototype [(js ''a'', HNum 1), (js ''b'', HRef 1)],
      HObj HObjectPrototype [(js ''x'', HNum 1)],
      HObj HObjectPrototype [(js ''b'', HRef 3), (js ''c'', HNum 4)],
      HObj HObjectPrototype [(js ''y'', HNum 2)]]"
  let ?h' = "[HObj HObjectPrototype [(js ''a'', HNum 1), (js ''b'', HRef 1)],
        HObj HObjectPrototype [(js ''x'', HNum 1)],
        HObj HObjectPrototype [(js ''b'', HRef 3), (js ''c'', HNum 4)],
        HObj HObjectPrototype [(js ''y'', HNum 2)],
        HObj HObjectPrototype [(js ''a'', HNum 1), (js ''b'', HRef 5), (js ''c'', HNum 4)],
        HObj HObjectPrototype [(js ''x'', HNum 1), (js ''y'', HNum 2)]]"
  have hyp: "ranked (\<lambda>a. 1 - a mod 2) ?h \<and> in_heap ?h (HRef 2)
      \<and> fuel (\<lambda>a. 1 - a mod 2) (HRef 2) \<le> 3"
    by code_simp
  have ob: "h_isObject (HRef 0) \<and> h_isObject (HRef 2)"
    by code_simp
  have na: "\<not> (h_isArray ?h (HRef 0) \<and> h_isArray ?h (HRef 2))"
    by code_simp
  have len: "length ?h = 4"
    by simp
  have run: "mergeValuesH 3 ?h (HRef 0) (HRef 2) = Some (HRef 4, ?h')"
    by code_simp
  note t = mergeValues_copy_on_write
    [of 3 ?h "HRef 0" "HRef 2" "HRef 4" ?h' "\<lambda>a. 1 - a mod 2" 3]
  note g = mp [OF conjunct1 [OF t] run]
  note g1 = conjunct1 [OF conjunct2 [OF g]]
  note g2 = mp [OF conjunct1 [OF conjunct2 [OF conjunct2 [OF g]]] ob]
  note g3 = conjunct2 [OF conjunct2 [OF g2]]
  have g4: "h_isPlain ?h' (length ?h)"
    using g3 by (simp only: na if_False)
  have ret: "\<exists>m' h''. mergeValuesH 3 ?h (HRef 0) (HRef 2) = Some (m', h'')"
    using mp [OF conjunct2 [OF t] hyp] .
  note h1 = conjunct1 [OF hyp]
  note h2 = conjunct1 [OF conjunct2 [OF hyp]]
  note h3 = conjunct2 [OF conjunct2 [OF hyp]]
  note ob1 = conjunct1 [OF ob]
  note ob2 = conjunct2 [OF ob]
  note fr1 = g1 [unfolded len]
  note fr2 = g4 [unfolded len]
  show ?thesis
    by (intro conjI) (rule h1 h2 h3 ob1 ob2 run fr1 fr2)+
qed


section \<open>Properties of the pointer codec\<close>

lemma uint_small: "0 \<le> k \<Longrightarrow> k < 65536 \<Longrightarrow> uint (word_of_int k :: code_unit) = k"
  by (simp add: uint_word_of_int_eq take_bit_int_eq_self)

lemma hex_value_hex_digit: "0 \<le> d \<Longrightarrow> d < 16 \<Longrightarrow> hex_value (hex_digit d) = Some d"
  by (simp add: hex_value_def hex_digit_def uint_small Let_def)

lemma hex_octet_escape:
  assumes "0 \<le> b" and "b < 256"
  shows "hex_octet (hex_digit (b div 16)) (hex_digit (b mod 16)) = Some b"
proof -
  have "0 \<le> b div 16" "b div 16 < 16" "0 \<le> b mod 16" "b mod 16 < 16"
    using assms by auto
  then show ?thesis
    by (simp add: hex_octet_def hex_value_hex_digit)
qed

text \<open>Decoding one escape.\<close>

lemma decode_percent:
  "decodeURIComponent (PERCENT # h # l # s) =
     (case hex_octet h l of
        None \<Rightarrow> Inl URIError
      | Some b \<Rightarrow>
          (let n = leading_ones b in
           if n = 0 then
             (case decodeURIComponent s of Inl e \<Rightarrow> Inl e | Inr r \<Rightarrow> Inr (word_of_int b # r))
           else if n = 1 \<or> n > 4 then Inl URIError
           else
             (case escaped_octets (n - 1) s of
                None \<Rightarrow> Inl URIError
              | Some bs \<Rightarrow>
                  (case utf8_code_point (b # bs) of
                     None \<Rightarrow> Inl URIError
                   | Some cp \<Rightarrow>
                       (case decodeURIComponent (drop (3 * (n - 1)) s) of
                          Inl e \<Rightarrow> Inl e
                        | Inr r \<Rightarrow> Inr (utf16_units cp @ r))))))"
  by simp

lemma escaped_octets_escape:
  "0 \<le> b \<Longrightarrow> b < 256 \<Longrightarrow>
   escaped_octets (Suc k) (escape_octet b @ s) =
     (case escaped_octets k s of None \<Rightarrow> None | Some bs \<Rightarrow> Some (b # bs))"
  by (simp add: escape_octet_def hex_octet_escape)

lemma decode_escape_1:
  assumes "0 \<le> cp" "cp < 128"
  shows "decodeURIComponent (escape_code_point cp @ r)
           = then_append (utf16_units cp) (decodeURIComponent r)"
proof -
  have b: "0 \<le> cp" "cp < 256" using assms by auto
  show ?thesis
    using assms
    by (simp add: escape_code_point_def utf8_octets_def escape_octet_def decode_percent
        hex_octet_escape [OF b] leading_ones_def utf16_units_def then_append_def
        del: decodeURIComponent.simps split: sum.split)
qed

lemma decode_multi:
  assumes "hex_octet h l = Some b" and "leading_ones b = n" and "2 \<le> n" and "n \<le> 4"
    and "escaped_octets (n - 1) s = Some bs" and "utf8_code_point (b # bs) = Some cp"
  shows "decodeURIComponent (PERCENT # h # l # s)
           = then_append (utf16_units cp) (decodeURIComponent (drop (3 * (n - 1)) s))"
  using assms
  by (simp add: decode_percent then_append_def del: decodeURIComponent.simps split: sum.split)

lemma length_escape_octet: "length (escape_octet b) = 3"
  by (simp add: escape_octet_def)

lemma escape_octet_Cons:
  "escape_octet b @ s = PERCENT # hex_digit (b div 16) # hex_digit (b mod 16) # s"
  by (simp add: escape_octet_def)

lemma split_octets_3:
  "(cp::int) div 4096 * 4096 + cp div 64 mod 64 * 64 + cp mod 64 = cp"
proof -
  define a where "a = cp div 64"
  have d: "cp div 4096 = a div 64"
    by (simp add: a_def zdiv_zmult2_eq)
  have "a div 64 * 64 + a mod 64 = a" "a * 64 + cp mod 64 = cp"
    by (simp_all add: a_def)
  then show ?thesis
    unfolding d a_def [symmetric] by linarith
qed

lemma split_octets_4:
  "(cp::int) div 262144 * 262144 + cp div 4096 mod 64 * 4096 + cp div 64 mod 64 * 64
     + cp mod 64 = cp"
proof -
  define a where "a = cp div 64"
  define b where "b = a div 64"
  have d: "cp div 4096 = b" "cp div 262144 = b div 64"
    by (simp_all add: a_def b_def zdiv_zmult2_eq)
  have "b div 64 * 64 + b mod 64 = b" "a div 64 * 64 + a mod 64 = a" "a * 64 + cp mod 64 = cp"
    by (simp_all add: a_def)
  then show ?thesis
    unfolding d a_def [symmetric] b_def [symmetric] by linarith
qed

lemma decode_escape_2:
  assumes "128 \<le> cp" "cp < 2048"
  shows "decodeURIComponent (escape_code_point cp @ r)
           = then_append (utf16_units cp) (decodeURIComponent r)"
proof -
  let ?b0 = "192 + cp div 64" and ?b1 = "128 + cp mod 64"
  have b0: "0 \<le> ?b0" "?b0 < 256" and r0: "194 \<le> ?b0" "?b0 < 224" using assms by auto
  have b1: "0 \<le> ?b1" "?b1 < 256" and r1: "128 \<le> ?b1" "?b1 < 192" using assms by auto
  have e: "escape_code_point cp @ r = escape_octet ?b0 @ escape_octet ?b1 @ r"
    using assms by (simp add: escape_code_point_def utf8_octets_def)
  have l: "leading_ones ?b0 = 2" using r0 by (simp add: leading_ones_def)
  have eo: "escaped_octets (2 - 1) (escape_octet ?b1 @ r) = Some [?b1]"
    using escaped_octets_escape [OF b1, of 0 r] by simp
  have cp: "utf8_code_point [?b0, ?b1] = Some cp"
    using assms r1 by (simp add: continuation_def)
  have "decodeURIComponent (PERCENT # hex_digit (?b0 div 16) # hex_digit (?b0 mod 16)
            # escape_octet ?b1 @ r)
          = then_append (utf16_units cp)
              (decodeURIComponent (drop (3 * (2 - 1)) (escape_octet ?b1 @ r)))"
    by (rule decode_multi [OF hex_octet_escape [OF b0] l _ _ eo cp]) simp_all
  then show ?thesis
    by (simp add: e escape_octet_Cons del: decodeURIComponent.simps)
qed

lemma decode_escape_3:
  assumes "2048 \<le> cp" "cp < 65536" "\<not> (55296 \<le> cp \<and> cp \<le> 57343)"
  shows "decodeURIComponent (escape_code_point cp @ r)
           = then_append (utf16_units cp) (decodeURIComponent r)"
proof -
  let ?b0 = "224 + cp div 4096" and ?b1 = "128 + (cp div 64) mod 64" and ?b2 = "128 + cp mod 64"
  have b0: "0 \<le> ?b0" "?b0 < 256" and r0: "224 \<le> ?b0" "?b0 < 240" using assms by auto
  have b1: "0 \<le> ?b1" "?b1 < 256" and r1: "128 \<le> ?b1" "?b1 < 192" using assms by auto
  have b2: "0 \<le> ?b2" "?b2 < 256" and r2: "128 \<le> ?b2" "?b2 < 192" using assms by auto
  have e: "escape_code_point cp @ r = escape_octet ?b0 @ escape_octet ?b1 @ escape_octet ?b2 @ r"
    using assms by (simp add: escape_code_point_def utf8_octets_def)
  have l: "leading_ones ?b0 = 3" using r0 by (simp add: leading_ones_def)
  have eo: "escaped_octets (3 - 1) (escape_octet ?b1 @ escape_octet ?b2 @ r) = Some [?b1, ?b2]"
    using escaped_octets_escape [OF b1, of 1 "escape_octet ?b2 @ r"]
      escaped_octets_escape [OF b2, of 0 r]
    by (simp add: numeral_2_eq_2)
  have v: "(?b0 - 224) * 4096 + (?b1 - 128) * 64 + (?b2 - 128) = cp"
    using split_octets_3 [of cp] by simp
  have c: "continuation ?b1" "continuation ?b2"
    using r1 r2 by (simp_all add: continuation_def)
  have cp: "utf8_code_point [?b0, ?b1, ?b2] = Some cp"
    unfolding utf8_code_point.simps Let_def v using c assms by simp
  have "decodeURIComponent (PERCENT # hex_digit (?b0 div 16) # hex_digit (?b0 mod 16)
            # escape_octet ?b1 @ escape_octet ?b2 @ r)
          = then_append (utf16_units cp)
              (decodeURIComponent (drop (3 * (3 - 1)) (escape_octet ?b1 @ escape_octet ?b2 @ r)))"
    by (rule decode_multi [OF hex_octet_escape [OF b0] l _ _ eo cp]) simp_all
  then show ?thesis
    by (simp add: e escape_octet_Cons del: decodeURIComponent.simps)
qed

lemma decode_escape_4:
  assumes "65536 \<le> cp" "cp \<le> 1114111"
  shows "decodeURIComponent (escape_code_point cp @ r)
           = then_append (utf16_units cp) (decodeURIComponent r)"
proof -
  let ?b0 = "240 + cp div 262144" and ?b1 = "128 + (cp div 4096) mod 64"
    and ?b2 = "128 + (cp div 64) mod 64" and ?b3 = "128 + cp mod 64"
  have b0: "0 \<le> ?b0" "?b0 < 256" and r0: "240 \<le> ?b0" "?b0 < 248" using assms by auto
  have b1: "0 \<le> ?b1" "?b1 < 256" and r1: "128 \<le> ?b1" "?b1 < 192" using assms by auto
  have b2: "0 \<le> ?b2" "?b2 < 256" and r2: "128 \<le> ?b2" "?b2 < 192" using assms by auto
  have b3: "0 \<le> ?b3" "?b3 < 256" and r3: "128 \<le> ?b3" "?b3 < 192" using assms by auto
  have e: "escape_code_point cp @ r
             = escape_octet ?b0 @ escape_octet ?b1 @ escape_octet ?b2 @ escape_octet ?b3 @ r"
    using assms by (simp add: escape_code_point_def utf8_octets_def)
  have l: "leading_ones ?b0 = 4" using r0 by (simp add: leading_ones_def)
  have eo: "escaped_octets (4 - 1) (escape_octet ?b1 @ escape_octet ?b2 @ escape_octet ?b3 @ r)
              = Some [?b1, ?b2, ?b3]"
    using escaped_octets_escape [OF b1, of 2 "escape_octet ?b2 @ escape_octet ?b3 @ r"]
      escaped_octets_escape [OF b2, of 1 "escape_octet ?b3 @ r"]
      escaped_octets_escape [OF b3, of 0 r]
    by (simp add: numeral_2_eq_2 numeral_3_eq_3)
  have v: "(?b0 - 240) * 262144 + (?b1 - 128) * 4096 + (?b2 - 128) * 64 + (?b3 - 128) = cp"
    using split_octets_4 [of cp] by simp
  have c: "continuation ?b1" "continuation ?b2" "continuation ?b3"
    using r1 r2 r3 by (simp_all add: continuation_def)
  have cp: "utf8_code_point [?b0, ?b1, ?b2, ?b3] = Some cp"
    unfolding utf8_code_point.simps Let_def v using c assms by simp
  have "decodeURIComponent (PERCENT # hex_digit (?b0 div 16) # hex_digit (?b0 mod 16)
            # escape_octet ?b1 @ escape_octet ?b2 @ escape_octet ?b3 @ r)
          = then_append (utf16_units cp)
              (decodeURIComponent
                 (drop (3 * (4 - 1)) (escape_octet ?b1 @ escape_octet ?b2 @ escape_octet ?b3 @ r)))"
    by (rule decode_multi [OF hex_octet_escape [OF b0] l _ _ eo cp]) simp_all
  then show ?thesis
    by (simp add: e escape_octet_Cons del: decodeURIComponent.simps)
qed

lemma utf16_units_unit: "utf16_units (uint c) = [c]"
  using uint_lt2p [of c] by (simp add: utf16_units_def)

lemma utf16_units_pair:
  assumes "lead_surrogate c" and "trail_surrogate d"
  shows "utf16_units (surrogate_pair c d) = [c, d]"
proof -
  define x where "x = uint c - 55296"
  define y where "y = uint d - 56320"
  have x: "0 \<le> x" "x < 1024" and y: "0 \<le> y" "y < 1024"
    using assms by (simp_all add: x_def y_def lead_surrogate_def trail_surrogate_def)
  have sp: "surrogate_pair c d - 65536 = x * 1024 + y"
    by (simp add: surrogate_pair_def x_def y_def)
  have "(x * 1024 + y) div 1024 = x" "(x * 1024 + y) mod 1024 = y"
    using x y by simp_all
  then have "55296 + (surrogate_pair c d - 65536) div 1024 = uint c"
    "56320 + (surrogate_pair c d - 65536) mod 1024 = uint d"
    unfolding sp by (simp_all add: x_def y_def)
  moreover have "\<not> surrogate_pair c d < 65536"
    using sp x y by (simp add: surrogate_pair_def)
  ultimately show ?thesis
    by (simp add: utf16_units_def)
qed

lemma surrogate_pair_range:
  assumes "lead_surrogate c" and "trail_surrogate d"
  shows "65536 \<le> surrogate_pair c d" "surrogate_pair c d \<le> 1114111"
  using assms by (simp_all add: surrogate_pair_def lead_surrogate_def trail_surrogate_def)

text \<open>Decoding the escapes of a code point gives back its UTF-16 units.\<close>

lemma decode_escape_unit:
  assumes "\<not> lead_surrogate c" and "\<not> trail_surrogate c"
  shows "decodeURIComponent (escape_code_point (uint c) @ r)
           = then_append [c] (decodeURIComponent r)"
proof -
  have u: "0 \<le> uint c" "uint c < 65536"
    using uint_lt2p [of c] by simp_all
  have n: "\<not> (55296 \<le> uint c \<and> uint c \<le> 57343)"
    using assms by (auto simp: lead_surrogate_def trail_surrogate_def)
  consider "uint c < 128" | "128 \<le> uint c" "uint c < 2048" | "2048 \<le> uint c"
    by linarith
  then have "decodeURIComponent (escape_code_point (uint c) @ r)
           = then_append (utf16_units (uint c)) (decodeURIComponent r)"
  proof cases
    case 1
    then show ?thesis using u by (simp add: decode_escape_1)
  next
    case 2
    then show ?thesis by (simp add: decode_escape_2)
  next
    case 3
    then show ?thesis using u n by (simp add: decode_escape_3)
  qed
  then show ?thesis by (simp add: utf16_units_unit)
qed

lemma decode_escape_pair:
  assumes "lead_surrogate c" and "trail_surrogate d"
  shows "decodeURIComponent (escape_code_point (surrogate_pair c d) @ r)
           = then_append [c, d] (decodeURIComponent r)"
  using decode_escape_4 [OF surrogate_pair_range [OF assms]] utf16_units_pair [OF assms]
  by simp

lemma escape_char_hex_digit: "0 \<le> d \<Longrightarrow> d < 16 \<Longrightarrow> escape_char (hex_digit d)"
  by (simp add: escape_char_def hex_digit_def uint_small)

lemma escape_char_octet:
  assumes "0 \<le> b" and "b < 256"
  shows "list_all escape_char (escape_octet b)"
proof -
  have "0 \<le> b div 16" "b div 16 < 16" "0 \<le> b mod 16" "b mod 16 < 16"
    using assms by auto
  then show ?thesis
    by (simp add: escape_octet_def escape_char_hex_digit) (simp add: escape_char_def)
qed

lemma utf8_octets_range:
  assumes "0 \<le> cp" and "cp \<le> 1114111"
  shows "list_all (\<lambda>b. 0 \<le> b \<and> b < 256) (utf8_octets cp)"
  using assms by (auto simp: utf8_octets_def)

lemma escape_char_code_point:
  assumes "0 \<le> cp" and "cp \<le> 1114111"
  shows "list_all escape_char (escape_code_point cp)"
proof -
  have "\<forall>b \<in> set (utf8_octets cp). \<forall>x \<in> set (escape_octet b). escape_char x"
    using utf8_octets_range [OF assms] escape_char_octet by (fastforce simp: list_all_iff)
  then show ?thesis
    by (auto simp: escape_code_point_def list_all_iff)
qed

lemma escape_char_not_special:
  "escape_char c \<Longrightarrow> c \<noteq> TILDE \<and> c \<noteq> SLASH"
  by (auto simp: escape_char_def TILDE_def SLASH_def PERCENT_def)

lemma escape_unit_chars:
  "list_all escape_char (escape_code_point (uint (c :: code_unit)))"
proof -
  have "uint c < 65536"
    using uint_lt2p [of c] by simp
  then show ?thesis
    by (intro escape_char_code_point) simp_all
qed

lemma escape_pair_chars:
  "lead_surrogate c \<Longrightarrow> trail_surrogate d \<Longrightarrow>
     list_all escape_char (escape_code_point (surrogate_pair c d))"
  using surrogate_pair_range [of c d] by (intro escape_char_code_point) simp_all

text \<open>The encoder, one code point at a time.\<close>

lemma unreserved_not_surrogate:
  "unreserved c \<Longrightarrow> \<not> lead_surrogate c \<and> \<not> trail_surrogate c"
  by (auto simp: unreserved_def lead_surrogate_def trail_surrogate_def Let_def)

lemma lead_not_trail: "lead_surrogate c \<Longrightarrow> \<not> trail_surrogate c"
  by (simp add: lead_surrogate_def trail_surrogate_def)

lemma encode_unreserved:
  "unreserved c \<Longrightarrow>
     encodeURIComponent (c # r) = then_append [c] (encodeURIComponent r)"
  by (cases r) (simp_all add: then_append_def split: sum.split)

lemma encode_unit:
  "\<not> unreserved c \<Longrightarrow> \<not> lead_surrogate c \<Longrightarrow> \<not> trail_surrogate c \<Longrightarrow>
     encodeURIComponent (c # r)
       = then_append (escape_code_point (uint c)) (encodeURIComponent r)"
  by (cases r) (simp_all add: then_append_def split: sum.split)

lemma encode_pair:
  "lead_surrogate c \<Longrightarrow> trail_surrogate d \<Longrightarrow>
     encodeURIComponent (c # d # r)
       = then_append (escape_code_point (surrogate_pair c d)) (encodeURIComponent r)"
  using unreserved_not_surrogate [of c] lead_not_trail [of c]
  by (auto simp: then_append_def split: sum.split)

text \<open>The two replacements with a pattern of two characters.\<close>

lemma replace_pair_other:
  "a \<noteq> c \<Longrightarrow> replace_pair a b rep (c # r) = c # replace_pair a b rep r"
  by (cases r) auto

lemma replace_pair_skip:
  "a \<notin> set xs \<Longrightarrow> replace_pair a b rep (xs @ r) = xs @ replace_pair a b rep r"
  by (induction xs) (simp_all add: replace_pair_other)

lemma replace_pair_match:
  "replace_pair a b rep (a # b # r) = rep @ replace_pair a b rep r"
  by simp

lemma replace_pair_no_match:
  "b' \<noteq> b \<Longrightarrow> a \<noteq> b' \<Longrightarrow>
     replace_pair a b rep (a # b' # r) = a # b' # replace_pair a b rep r"
  by (simp add: replace_pair_other)

lemma replace_unit_append:
  "replace_unit c rep (xs @ ys) = replace_unit c rep xs @ replace_unit c rep ys"
  by (induction xs) simp_all

lemma decode_plain:
  "c \<noteq> PERCENT \<Longrightarrow>
     decodeURIComponent (c # r) = then_append [c] (decodeURIComponent r)"
  by (simp add: then_append_def split: sum.split)

lemma special_chars:
  "unreserved TILDE" "unreserved ZERO" "unreserved ONE"
  "\<not> unreserved SLASH" "\<not> unreserved PERCENT"
  "TILDE \<noteq> SLASH" "TILDE \<noteq> ZERO" "TILDE \<noteq> ONE" "TILDE \<noteq> PERCENT"
  "SLASH \<noteq> ZERO" "SLASH \<noteq> ONE" "SLASH \<noteq> PERCENT" "ZERO \<noteq> ONE"
  "js ''~0'' = [TILDE, ZERO]" "js ''~1'' = [TILDE, ONE]" "js ''~'' = [TILDE]"
  "js ''/'' = [SLASH]"
  by (simp_all add: unreserved_def TILDE_def ZERO_def ONE_def SLASH_def PERCENT_def js_def)

lemma surrogate_not_special:
  "lead_surrogate c \<or> trail_surrogate c \<Longrightarrow> c \<noteq> TILDE \<and> c \<noteq> SLASH"
  by (auto simp: lead_surrogate_def trail_surrogate_def TILDE_def SLASH_def)

lemma escape_Cons:
  "escape_slash (escape_tilde (c # s)) =
     (if c = TILDE then [TILDE, ZERO] else if c = SLASH then [TILDE, ONE] else [c])
       @ escape_slash (escape_tilde s)"
  using special_chars
  by (simp add: escape_slash_def escape_tilde_def replace_unit_append)

lemma unescape_unfold:
  "unescape_tilde (unescape_slash x)
     = replace_pair TILDE ZERO [TILDE] (replace_pair TILDE ONE [SLASH] x)"
  by (simp add: unescape_tilde_def unescape_slash_def special_chars)

lemma token_step_unit:
  assumes ns: "\<not> lead_surrogate c" "\<not> trail_surrogate c"
    and ih: "token_round_trip s e"
  shows "\<exists>e'. token_round_trip (c # s) e'"
proof -
  from ih have enc: "encodeURIComponent (escape_slash (escape_tilde s)) = Inr e"
    and sl: "SLASH \<notin> set e"
    and dec: "decodeURIComponent
                (replace_pair TILDE ZERO [TILDE] (replace_pair TILDE ONE [SLASH] e)) = Inr s"
    by (simp_all add: token_round_trip_def unescape_unfold)
  consider (tilde) "c = TILDE" | (slash) "c = SLASH"
    | (plain) "unreserved c" "c \<noteq> TILDE" | (other) "\<not> unreserved c" "c \<noteq> SLASH"
    by blast
  then show ?thesis
  proof cases
    case tilde
    have "token_round_trip (c # s) (TILDE # ZERO # e)"
      unfolding token_round_trip_def escape_Cons unescape_unfold tilde
      using special_chars(1-13) sl
      by (simp add: encode_unreserved enc then_append_def
          replace_pair_no_match replace_pair_match decode_plain dec
          del: encodeURIComponent.simps replace_pair.simps decodeURIComponent.simps)
    then show ?thesis ..
  next
    case slash
    have "token_round_trip (c # s) (TILDE # ONE # e)"
      unfolding token_round_trip_def escape_Cons unescape_unfold slash
      using special_chars(1-13) sl
      by (simp add: encode_unreserved enc then_append_def
          replace_pair_other replace_pair_match decode_plain dec
          del: encodeURIComponent.simps replace_pair.simps decodeURIComponent.simps)
    then show ?thesis ..
  next
    case plain
    then have c: "c \<noteq> SLASH" "c \<noteq> PERCENT" "TILDE \<noteq> c"
      using special_chars by auto
    have "token_round_trip (c # s) (c # e)"
      unfolding token_round_trip_def escape_Cons unescape_unfold
      using plain c sl
      by (simp add: encode_unreserved enc then_append_def
          replace_pair_other decode_plain dec
          del: encodeURIComponent.simps replace_pair.simps decodeURIComponent.simps)
    then show ?thesis ..
  next
    case other
    then have c: "c \<noteq> TILDE"
      using special_chars by auto
    have ch: "TILDE \<notin> set (escape_code_point (uint c))" "SLASH \<notin> set (escape_code_point (uint c))"
      using escape_unit_chars [of c] escape_char_not_special by (auto simp: list_all_iff)
    have "token_round_trip (c # s) (escape_code_point (uint c) @ e)"
      unfolding token_round_trip_def escape_Cons unescape_unfold
      using other c sl ch ns
      by (simp add: encode_unit enc then_append_def
          replace_pair_skip decode_escape_unit dec
          del: encodeURIComponent.simps replace_pair.simps decodeURIComponent.simps)
    then show ?thesis ..
  qed
qed

lemma token_step_pair:
  assumes p: "lead_surrogate c" "trail_surrogate d"
    and ih: "token_round_trip s e"
  shows "\<exists>e'. token_round_trip (c # d # s) e'"
proof -
  from ih have enc: "encodeURIComponent (escape_slash (escape_tilde s)) = Inr e"
    and sl: "SLASH \<notin> set e"
    and dec: "decodeURIComponent
                (replace_pair TILDE ZERO [TILDE] (replace_pair TILDE ONE [SLASH] e)) = Inr s"
    by (simp_all add: token_round_trip_def unescape_unfold)
  have c: "c \<noteq> TILDE" "c \<noteq> SLASH" "d \<noteq> TILDE" "d \<noteq> SLASH"
    using p surrogate_not_special [of c] surrogate_not_special [of d] by auto
  let ?x = "escape_code_point (surrogate_pair c d)"
  have ch: "TILDE \<notin> set ?x" "SLASH \<notin> set ?x"
    using escape_pair_chars [OF p] escape_char_not_special by (auto simp: list_all_iff)
  have "token_round_trip (c # d # s) (?x @ e)"
    unfolding token_round_trip_def escape_Cons unescape_unfold
    using c sl ch p
    by (simp add: encode_pair enc then_append_def
        replace_pair_skip decode_escape_pair dec
        del: encodeURIComponent.simps replace_pair.simps decodeURIComponent.simps)
  then show ?thesis ..
qed

lemma token_round_trip_exists:
  "well_formed t \<Longrightarrow> \<exists>e. token_round_trip t e"
proof (induction t rule: well_formed.induct)
  case 1
  have "token_round_trip [] []"
    by (simp add: token_round_trip_def escape_slash_def escape_tilde_def unescape_unfold)
  then show ?case ..
next
  case (2 c)
  have "token_round_trip [] []"
    by (simp add: token_round_trip_def escape_slash_def escape_tilde_def unescape_unfold)
  with 2 show ?case
    by (auto intro: token_step_unit)
next
  case (3 c d s)
  show ?case
  proof (cases "lead_surrogate c")
    case True
    with 3 obtain e where "token_round_trip s e" by auto
    with True 3 show ?thesis
      by (auto intro: token_step_pair)
  next
    case False
    with 3 obtain e where "token_round_trip (d # s) e" by auto
    with False 3 show ?thesis
      by (auto intro: token_step_unit)
  qed
qed

lemma split_join:
  "es \<noteq> [] \<Longrightarrow> list_all (\<lambda>e. c \<notin> set e) es \<Longrightarrow> split c (join [c] es) = es"
proof (induction "[c]" es rule: join.induct)
  case 1
  then show ?case by simp
next
  case (2 x)
  then show ?case by (simp add: split_no_sep)
next
  case (3 x y ys)
  then show ?case by (simp add: split_append_sep)
qed

lemma segment_empty: "decodeURIComponent (unescape_tilde (unescape_slash [])) = Inr []"
  by (simp add: unescape_unfold)

lemma tokens_round_trip:
  "list_all well_formed ts \<Longrightarrow>
   \<exists>es. map_throwing (\<lambda>i. encodeURIComponent (escape_slash (escape_tilde (to_String i))))
           (map PStr ts) = Inr es
     \<and> list_all (\<lambda>e. SLASH \<notin> set e) es
     \<and> length es = length ts
     \<and> map_throwing (\<lambda>i. decodeURIComponent (unescape_tilde (unescape_slash i))) es = Inr ts"
proof (induction ts)
  case Nil
  then show ?case by simp
next
  case (Cons t ts)
  then obtain es where es:
    "map_throwing (\<lambda>i. encodeURIComponent (escape_slash (escape_tilde (to_String i))))
           (map PStr ts) = Inr es"
    "list_all (\<lambda>e. SLASH \<notin> set e) es" "length es = length ts"
    "map_throwing (\<lambda>i. decodeURIComponent (unescape_tilde (unescape_slash i))) es = Inr ts"
    by auto
  from Cons.prems obtain e where "token_round_trip t e"
    using token_round_trip_exists [of t] by auto
  then have e: "encodeURIComponent (escape_slash (escape_tilde t)) = Inr e"
    "SLASH \<notin> set e" "decodeURIComponent (unescape_tilde (unescape_slash e)) = Inr t"
    by (simp_all add: token_round_trip_def)
  show ?case
    by (rule exI [of _ "e # es"]) (simp add: es e)
qed

text \<open>
  C5, amended. For every sequence of string tokens that are well formed (no surrogate
  outside a pair), \<open>buildPointer\<close> returns a pointer and \<open>parsePointer\<close> of that
  pointer returns the tokens; this covers tokens with \<open>/\<close> and \<open>~\<close>, and the empty
  sequence. The two examples of the specification hold.
\<close>

theorem pointer_round_trip:
  "(list_all well_formed ts \<longrightarrow>
      (\<exists>p. buildPointer (map PStr ts) = Inr p \<and> parsePointer p = Inr ts))
   \<and> buildPointer [PStr (js ''a/b''), PStr (js ''c~d'')] = Inr (js ''/a~1b/c~0d'')
   \<and> parsePointer (js ''/a~1b/c~0d'') = Inr [js ''a/b'', js ''c~d'']"
proof (intro conjI impI)
  assume wf: "list_all well_formed ts"
  show "\<exists>p. buildPointer (map PStr ts) = Inr p \<and> parsePointer p = Inr ts"
  proof (cases ts)
    case Nil
    then show ?thesis
      by (simp add: buildPointer_def parsePointer_def segment_empty)
  next
    case (Cons t ts')
    from tokens_round_trip [OF wf] obtain es where es:
      "map_throwing (\<lambda>i. encodeURIComponent (escape_slash (escape_tilde (to_String i))))
           (map PStr ts) = Inr es"
      "list_all (\<lambda>e. SLASH \<notin> set e) es" "length es = length ts"
      "map_throwing (\<lambda>i. decodeURIComponent (unescape_tilde (unescape_slash i))) es = Inr ts"
      by auto
    from es(3) Cons have ne: "es \<noteq> []" by auto
    have b: "buildPointer (map PStr ts) = Inr (SLASH # join [SLASH] es)"
      using Cons es(1) by (simp add: buildPointer_def special_chars)
    have "split SLASH (SLASH # join [SLASH] es) = [] # es"
      using split_join [OF ne es(2)] by simp
    then have "parsePointer (SLASH # join [SLASH] es) = Inr ts"
      by (simp add: parsePointer_def es(4) segment_empty)
    with b show ?thesis by blast
  qed
next
  show "buildPointer [PStr (js ''a/b''), PStr (js ''c~d'')] = Inr (js ''/a~1b/c~0d'')"
    by code_simp
next
  show "parsePointer (js ''/a~1b/c~0d'') = Inr [js ''a/b'', js ''c~d'']"
    by code_simp
qed

theorem pointer_round_trip_witness:
  "list_all well_formed [js ''a/b'', js ''c~d'']
   \<and> (\<exists>p. buildPointer (map PStr [js ''a/b'', js ''c~d'']) = Inr p
          \<and> parsePointer p = Inr [js ''a/b'', js ''c~d''])"
proof -
  have wf: "list_all well_formed [js ''a/b'', js ''c~d'']"
    by code_simp
  show ?thesis
    using wf pointer_round_trip [of "[js ''a/b'', js ''c~d'']"] by blast
qed

text \<open>
  C5, as the claim states it, for every sequence of string tokens: a token that holds a
  lone surrogate (here the single code unit \<open>D800\<close>) makes \<open>encodeURIComponent\<close>
  throw, so \<open>buildPointer\<close> returns no pointer to parse.
\<close>

theorem buildPointer_lone_surrogate_counterexample:
  "buildPointer [PStr [55296]] = Inl URIError"
  by code_simp

section \<open>The loop of posixNormalize and its specification\<close>

lemma split_not_Nil: "split c s \<noteq> []"
  by (induction s) (auto simp: Let_def)

lemma walk_split:
  "walk a acc cur rest
     = foldl (spec_segment a) acc ((cur @ hd (split SLASH rest)) # tl (split SLASH rest))"
proof (induction rest arbitrary: acc cur)
  case Nil
  then show ?case by simp
next
  case (Cons c rest)
  have ht: "hd (split SLASH rest) # tl (split SLASH rest) = split SLASH rest"
    using split_not_Nil [of SLASH rest] by simp
  show ?case
  proof (cases "c = SLASH")
    case True
    then show ?thesis
      using Cons.IH [of "spec_segment a acc cur" "[]"] ht by (simp add: Let_def)
  next
    case False
    then show ?thesis
      using Cons.IH [of acc "cur @ [c]"] by (simp add: Let_def)
  qed
qed

lemma walk_spec: "join [SLASH] (walk a [] [] path) = spec_posixNormalize path a"
  using split_not_Nil [of SLASH path]
  by (simp add: walk_split spec_posixNormalize_def)

subsection \<open>join and lastIndexOf\<close>

lemma join_snoc: "xs \<noteq> [] \<Longrightarrow> join sep (xs @ [s]) = join sep xs @ sep @ s"
  by (induction sep xs rule: join.induct) simp_all

lemma join_butlast:
  "acc \<noteq> [] \<Longrightarrow> butlast acc \<noteq> [] \<Longrightarrow>
     join sep acc = join sep (butlast acc) @ sep @ last acc"
  using join_snoc [of "butlast acc" sep "last acc"] by simp

lemma join_single: "acc \<noteq> [] \<Longrightarrow> butlast acc = [] \<Longrightarrow> join sep acc = last acc"
  by (cases acc) (simp_all split: if_splits)

lemma good_join_Nil: "good acc \<Longrightarrow> join [SLASH] acc = [] \<longleftrightarrow> acc = []"
  by (induction "[SLASH]" acc rule: join.induct) (simp_all add: good_def)

lemma lastIndexOf_none: "c \<notin> set s \<Longrightarrow> lastIndexOf s c = -1"
  by (induction s) (auto simp: Let_def)

lemma lastIndexOf_append:
  "c \<notin> set ys \<Longrightarrow> lastIndexOf (xs @ c # ys) c = int (length xs)"
  by (induction xs) (simp_all add: Let_def lastIndexOf_none)

lemma good_butlast: "good acc \<Longrightarrow> good (butlast acc)"
  by (auto simp: good_def list_all_iff dest: in_set_butlastD)

lemma good_last: "good acc \<Longrightarrow> acc \<noteq> [] \<Longrightarrow> last acc \<noteq> [] \<and> SLASH \<notin> set (last acc)"
  by (auto simp: good_def list_all_iff)

lemma good_snoc: "good acc \<Longrightarrow> s \<noteq> [] \<Longrightarrow> SLASH \<notin> set s \<Longrightarrow> good (acc @ [s])"
  by (simp add: good_def)

text \<open>The length of the last segment, as the source recomputes it after a pop.\<close>

lemma last_segment_length:
  assumes "good acc" and "acc \<noteq> []"
  shows "int (length (join [SLASH] acc)) - 1 - lastIndexOf (join [SLASH] acc) SLASH
           = int (length (last acc))"
proof (cases "butlast acc = []")
  case True
  then show ?thesis
    using assms good_last [OF assms] by (simp add: join_single lastIndexOf_none)
next
  case False
  then show ?thesis
    using assms good_last [OF assms]
    by (simp add: join_butlast lastIndexOf_append)
qed

subsection \<open>The separator step\<close>

lemma all_dots_1: "list_all (\<lambda>c. c = DOT) cur \<and> length cur = 1 \<longleftrightarrow> cur = [DOT]"
  by (cases cur) auto

lemma all_dots_2: "list_all (\<lambda>c. c = DOT) cur \<and> length cur = 2 \<longleftrightarrow> cur = [DOT, DOT]"
proof (cases cur)
  case Nil
  then show ?thesis by simp
next
  case (Cons x xs)
  then show ?thesis by (cases xs) auto
qed

text \<open>The test of the source for "the result ends in the segment \<open>..\<close>".\<close>

lemma ends_in_dotdot:
  assumes "good acc"
  defines "r \<equiv> join [SLASH] acc"
  defines "l \<equiv> (if acc = [] then 0 else int (length (last acc)))"
  shows "(int (length r) < 2 \<or> l \<noteq> 2
            \<or> charCodeAt r (int (length r) - 1) \<noteq> Some DOT
            \<or> charCodeAt r (int (length r) - 2) \<noteq> Some DOT)
         \<longleftrightarrow> \<not> (acc \<noteq> [] \<and> last acc = [DOT, DOT])"
proof (cases "acc = []")
  case True
  then show ?thesis by (simp add: r_def l_def)
next
  case False
  obtain xs where r: "r = xs @ last acc"
  proof (cases "butlast acc = []")
    case True
    with False have "r = [] @ last acc" by (simp add: r_def join_single)
    then show ?thesis by (rule that)
  next
    case b: False
    with False have "r = (join [SLASH] (butlast acc) @ [SLASH]) @ last acc"
      by (simp add: r_def join_butlast)
    then show ?thesis by (rule that)
  qed
  show ?thesis
  proof (cases "length (last acc) = 2")
    case True
    then obtain x y where xy: "last acc = [x, y]"
      by (cases "last acc"; cases "tl (last acc)") auto
    have n: "nat (int (length r) - 1) = Suc (length xs)" "nat (int (length r) - 2) = length xs"
      by (simp_all add: r xy)
    have "charCodeAt r (int (length r) - 1) = Some y" "charCodeAt r (int (length r) - 2) = Some x"
      unfolding charCodeAt_def n by (simp_all add: r xy nth_append)
    with False True show ?thesis
      by (auto simp: l_def r xy)
  next
    case n2: False
    with False show ?thesis by (auto simp: l_def)
  qed
qed

lemma holds_mark: "holds (pn_mark i st) acc = holds st acc"
  by (simp add: holds_def pn_mark_def)

lemma mark_fields: "lastSlash (pn_mark i st) = i" "dots (pn_mark i st) = 0"
  by (simp_all add: pn_mark_def)

lemma dotdot_literals: "js ''..'' = [DOT, DOT]" "js ''/..'' = [SLASH, DOT, DOT]"
  by (simp_all add: js_def DOT_def SLASH_def)

lemma DOT_not_SLASH: "DOT \<noteq> SLASH" "SLASH \<noteq> DOT"
  by (simp_all add: DOT_def SLASH_def)

lemma holds_above_root:
  assumes "holds st acc" and "acc = [] \<or> last acc = [DOT, DOT]"
  shows "holds (pn_above_root a st) (if a then acc @ [[DOT, DOT]] else acc)"
proof (cases a)
  case False
  with assms show ?thesis by (simp add: pn_above_root_def)
next
  case True
  from assms(1) have g: "good (acc @ [[DOT, DOT]])"
    by (simp add: holds_def good_def DOT_not_SLASH)
  show ?thesis
  proof (cases "acc = []")
    case e: True
    with True assms(1) g show ?thesis
      by (simp add: holds_def pn_above_root_def dotdot_literals)
  next
    case ne: False
    then have "join [SLASH] acc \<noteq> []"
      using assms(1) by (simp add: holds_def good_join_Nil)
    with True ne assms(1) g show ?thesis
      by (simp add: holds_def pn_above_root_def dotdot_literals join_snoc)
  qed
qed

lemma holds_pop:
  assumes h: "holds st acc" and ne: "acc \<noteq> []" and nd: "last acc \<noteq> [DOT, DOT]"
    and c: "lastSlash st \<noteq> i - 1" "dots st = 2"
  shows "holds (pn_separator path a i st) (butlast acc)
         \<and> lastSlash (pn_separator path a i st) = i \<and> dots (pn_separator path a i st) = 0"
proof -
  let ?r = "res st"
  from h have r: "?r = join [SLASH] acc" and g: "good acc"
    and l: "lastSegmentLength st = (if acc = [] then 0 else int (length (last acc)))"
    by (simp_all add: holds_def)
  have rne: "?r \<noteq> []"
    using g ne by (simp add: r good_join_Nil)
  have t: "int (length ?r) < 2 \<or> lastSegmentLength st \<noteq> 2
            \<or> charCodeAt ?r (int (length ?r) - 1) \<noteq> Some DOT
            \<or> charCodeAt ?r (int (length ?r) - 2) \<noteq> Some DOT"
    using ends_in_dotdot [OF g] ne nd unfolding r l by blast
  have gb: "good (butlast acc)"
    using g by (rule good_butlast)
  show ?thesis
  proof (cases "butlast acc = []")
    case True
    then have one: "?r = last acc"
      using ne by (simp add: r join_single)
    have li: "lastIndexOf ?r SLASH = -1"
      using good_last [OF g ne] by (simp add: one lastIndexOf_none)
    have c1: "\<not> (lastSlash st = i - 1 \<or> dots st = 1)" and c2: "lastSlash st \<noteq> i - 1 \<and> dots st = 2"
      using c by simp_all
    have "pn_separator path a i st = pn_mark i (st\<lparr>res := [], lastSegmentLength := 0\<rparr>)"
    proof (cases "int (length ?r) > 2")
      case True
      have n: "lastIndexOf ?r SLASH \<noteq> int (length ?r) - 1"
        using True li by auto
      show ?thesis
        by (simp only: pn_separator_def Let_def c1 c2 t True n li if_True if_False)
          (simp_all add: rne)
    next
      case False
      moreover have "0 < length ?r"
        using rne by simp
      ultimately have "int (length ?r) = 2 \<or> int (length ?r) = 1"
        by linarith
      then show ?thesis
        by (simp only: pn_separator_def Let_def c1 c2 t False if_True if_False) simp_all
    qed
    then show ?thesis
      using True by (simp add: holds_def mark_fields pn_mark_def good_def)
  next
    case False
    let ?b = "join [SLASH] (butlast acc)"
    have two: "?r = ?b @ [SLASH] @ last acc"
      using ne False by (simp add: r join_butlast)
    have bne: "?b \<noteq> []"
      using gb False by (simp add: good_join_Nil)
    have lne: "last acc \<noteq> []" "SLASH \<notin> set (last acc)"
      using good_last [OF g ne] by simp_all
    have li: "lastIndexOf ?r SLASH = int (length ?b)"
      using lne by (simp add: two lastIndexOf_append)
    have len: "int (length ?r) > 2"
      using bne lne by (cases ?b; cases "last acc") (simp_all add: two)
    have sl: "slice ?r 0 (int (length ?b)) = ?b"
      by (simp add: slice_def two)
    have "pn_separator path a i st
            = pn_mark i (st\<lparr>res := ?b,
                lastSegmentLength := int (length ?b) - 1 - lastIndexOf ?b SLASH\<rparr>)"
    proof -
      have c1: "\<not> (lastSlash st = i - 1 \<or> dots st = 1)"
        and c2: "lastSlash st \<noteq> i - 1 \<and> dots st = 2"
        using c by simp_all
      have n: "lastIndexOf ?r SLASH \<noteq> int (length ?r) - 1"
        "lastIndexOf ?r SLASH \<noteq> - 1"
        using li lne bne by (simp_all add: two)
      have sl': "slice ?r 0 (lastIndexOf ?r SLASH) = ?b"
        using sl li by simp
      show ?thesis
        by (simp only: pn_separator_def Let_def c1 c2 t len n sl' if_True if_False) simp_all
    qed
    then show ?thesis
      using False gb last_segment_length [OF gb False]
      by (simp add: holds_def mark_fields pn_mark_def)
  qed
qed

lemma separator_step:
  assumes h: "holds st acc"
    and ls: "lastSlash st = i - 1 - int (length cur)"
    and d: "dots st = (if list_all (\<lambda>c. c = DOT) cur then int (length cur) else -1)"
    and sl: "slice path (lastSlash st + 1) i = cur"
    and ns: "SLASH \<notin> set cur"
  shows "holds (pn_separator path a i st) (spec_segment a acc cur)
         \<and> lastSlash (pn_separator path a i st) = i \<and> dots (pn_separator path a i st) = 0"
proof -
  from h have r: "res st = join [SLASH] acc" and g: "good acc"
    and l: "lastSegmentLength st = (if acc = [] then 0 else int (length (last acc)))"
    by (simp_all add: holds_def)
  consider (empty) "cur = []" | (dot) "cur = [DOT]" | (dotdot) "cur = [DOT, DOT]"
    | (name) "cur \<noteq> []" "cur \<noteq> [DOT]" "cur \<noteq> [DOT, DOT]"
    by blast
  then show ?thesis
  proof cases
    case empty
    then have "pn_separator path a i st = pn_mark i st"
      using ls by (simp add: pn_separator_def)
    then show ?thesis
      using h empty by (simp add: holds_mark mark_fields spec_segment_def)
  next
    case dot
    then have "pn_separator path a i st = pn_mark i st"
      using d by (simp add: pn_separator_def)
    then show ?thesis
      using h dot by (simp add: holds_mark mark_fields spec_segment_def)
  next
    case dotdot
    then have c: "lastSlash st \<noteq> i - 1" "dots st = 2"
      using ls d by simp_all
    show ?thesis
    proof (cases "acc \<noteq> [] \<and> last acc \<noteq> [DOT, DOT]")
      case True
      then show ?thesis
        using holds_pop [OF h _ _ c, of path a] dotdot by (simp add: spec_segment_def)
    next
      case False
      then have e: "acc = [] \<or> last acc = [DOT, DOT]" by blast
      have c1: "\<not> (lastSlash st = i - 1 \<or> dots st = 1)"
        and c2: "lastSlash st \<noteq> i - 1 \<and> dots st = 2"
        using c by simp_all
      have "pn_separator path a i st = pn_mark i (pn_above_root a st)"
      proof (cases "acc = []")
        case True
        then have n: "int (length (res st)) < 2" "\<not> int (length (res st)) > 2"
          "\<not> (int (length (res st)) = 2 \<or> int (length (res st)) = 1)"
          by (simp_all add: r)
        show ?thesis
          by (simp only: pn_separator_def Let_def c1 c2 n if_True if_False simp_thms) simp_all
      next
        case ne: False
        with e have n: "\<not> (int (length (res st)) < 2 \<or> lastSegmentLength st \<noteq> 2
            \<or> charCodeAt (res st) (int (length (res st)) - 1) \<noteq> Some DOT
            \<or> charCodeAt (res st) (int (length (res st)) - 2) \<noteq> Some DOT)"
          using ends_in_dotdot [OF g] unfolding r l by blast
        show ?thesis
          by (simp only: pn_separator_def Let_def c1 c2 n if_True if_False) simp_all
      qed
      then show ?thesis
        using holds_above_root [OF h e, of a] False dotdot
        by (auto simp: holds_mark mark_fields spec_segment_def)
    qed
  next
    case name
    then have c: "lastSlash st \<noteq> i - 1" "dots st \<noteq> 1" "dots st \<noteq> 2"
      using ls d all_dots_1 [of cur] all_dots_2 [of cur] by (auto split: if_splits)
    have "pn_separator path a i st
            = pn_mark i (st\<lparr>res := (if acc = [] then cur else join [SLASH] acc @ [SLASH] @ cur),
                lastSegmentLength := int (length cur)\<rparr>)"
    proof -
      have c1: "\<not> (lastSlash st = i - 1 \<or> dots st = 1)"
        and c2: "\<not> (lastSlash st \<noteq> i - 1 \<and> dots st = 2)"
        using c by simp_all
      have n: "(int (length (res st)) > 0) = (acc \<noteq> [])"
        using g by (simp add: r good_join_Nil)
      have len: "i - lastSlash st - 1 = int (length cur)"
        using ls by simp
      show ?thesis
        by (simp only: pn_separator_def Let_def c1 c2 n sl len if_True if_False)
          (simp add: r)
    qed
    then show ?thesis
      using name g ns
      by (simp add: holds_def mark_fields pn_mark_def spec_segment_def join_snoc good_snoc)
  qed
qed

subsection \<open>The loop\<close>

lemma inv_slice:
  assumes "pn_inv path i code st acc cur"
  shows "slice path (lastSlash st + 1) (int i) = cur"
proof -
  from assms have ls: "lastSlash st = int i - 1 - int (length cur)" and le: "length cur \<le> i"
    and c: "cur = take (length cur) (drop (i - length cur) path)"
    by (simp_all add: pn_inv_def)
  have "nat (lastSlash st + 1) = i - length cur"
    using ls le by simp
  then have "slice path (lastSlash st + 1) (int i) = take (length cur) (drop (i - length cur) path)"
    using le by (simp add: slice_def)
  with c show ?thesis by simp
qed

lemma inv_separator:
  assumes "pn_inv path i code st acc cur"
  shows "holds (pn_separator path a (int i) st) (spec_segment a acc cur)
         \<and> lastSlash (pn_separator path a (int i) st) = int i
         \<and> dots (pn_separator path a (int i) st) = 0"
  using assms inv_slice [OF assms]
  by (intro separator_step) (simp_all add: pn_inv_def)

lemma inv_step_separator:
  assumes "pn_inv path i code st acc cur" and "i < length path"
  shows "pn_inv path (i + 1) (Some SLASH) (pn_separator path a (int i) st)
           (spec_segment a acc cur) []"
  using inv_separator [OF assms(1), of a] assms(2)
  by (simp add: pn_inv_def)

lemma inv_step_char:
  assumes inv: "pn_inv path i code st acc cur" and i: "i < length path"
    and c: "path ! i \<noteq> SLASH"
  shows "pn_inv path (i + 1) (Some (path ! i)) (pn_body path a (int i) (path ! i) st)
           acc (cur @ [path ! i])"
proof -
  from inv have h: "holds st acc" and ls: "lastSlash st = int i - 1 - int (length cur)"
    and d: "dots st = (if list_all (\<lambda>c. c = DOT) cur then int (length cur) else -1)"
    and le: "length cur \<le> i"
    and cur: "cur = take (length cur) (drop (i - length cur) path)"
    and ns: "SLASH \<notin> set cur"
    by (simp_all add: pn_inv_def)
  let ?c = "path ! i"
  let ?st = "pn_body path a (int i) ?c st"
  have b: "?st = st\<lparr>dots := (if ?c = DOT \<and> dots st \<noteq> -1 then dots st + 1 else -1)\<rparr>"
    using c by (simp add: pn_body_def)
  define cur' where "cur' = cur @ [?c]"
  have h': "holds ?st acc"
    using h by (simp add: b holds_def)
  have ls': "lastSlash ?st = int (i + 1) - 1 - int (length cur')"
    using ls by (simp add: b cur'_def)
  have d': "dots ?st = (if list_all (\<lambda>c. c = DOT) cur' then int (length cur') else -1)"
    using d by (simp add: b cur'_def)
  have n: "length cur < length (drop (i - length cur) path)"
    using i le by simp
  have "take (Suc (length cur)) (drop (i - length cur) path)
          = take (length cur) (drop (i - length cur) path) @ [drop (i - length cur) path ! length cur]"
    using n by (rule take_Suc_conv_app_nth)
  moreover have "drop (i - length cur) path ! length cur = ?c"
    using i le by simp
  ultimately have eq: "cur' = take (Suc (length cur)) (drop (i - length cur) path)"
    using cur by (simp add: cur'_def)
  have lc: "length cur' = Suc (length cur)"
    by (simp add: cur'_def)
  have idx: "i + 1 - Suc (length cur) = i - length cur"
    by simp
  have c': "cur' = take (length cur') (drop (i + 1 - length cur') path)"
    unfolding lc idx by (rule eq)
  have le': "length cur' \<le> i + 1" "i + 1 \<le> length path"
    using le i by (simp_all add: cur'_def)
  have ns': "SLASH \<notin> set cur'"
    using ns c by (simp add: cur'_def)
  have cd': "Some ?c = Some SLASH \<longrightarrow> cur' = []"
    using c by simp
  show ?thesis
    unfolding pn_inv_def cur'_def [symmetric]
    using h' ls' d' le' c' ns' cd' by blast
qed

lemma pn_loop_walk:
  "pn_inv path i code st acc cur \<Longrightarrow>
     pn_loop path a i code st = join [SLASH] (walk a acc cur (drop i path))"
proof (induction path a i code st arbitrary: acc cur rule: pn_loop.induct)
  case (1 path a i code st)
  from "1.prems" have le: "i \<le> length path" and cd: "code = Some SLASH \<longrightarrow> cur = []"
    and h: "holds st acc"
    by (simp_all add: pn_inv_def)
  show ?case
  proof (cases "i < length path")
    case True
    then have dr: "drop i path = path ! i # drop (i + 1) path"
      by (simp add: Cons_nth_drop_Suc)
    show ?thesis
    proof (cases "path ! i = SLASH")
      case s: True
      have "pn_inv path (i + 1) (Some (path ! i)) (pn_body path a (int i) (path ! i) st)
              (spec_segment a acc cur) []"
        using inv_step_separator [OF "1.prems" True, of a] s by (simp add: pn_body_def)
      from "1.IH"(1) [OF le True this] show ?thesis
        using True s by (subst pn_loop.simps) (simp add: dr)
    next
      case ns: False
      from "1.IH"(1) [OF le True inv_step_char [OF "1.prems" True ns]] show ?thesis
        using True ns by (subst pn_loop.simps) (simp add: dr)
    qed
  next
    case False
    with le have e: "i = length path" by simp
    show ?thesis
    proof (cases "code = Some SLASH")
      case True
      with cd have "cur = []" by simp
      then show ?thesis
        using True e h by (subst pn_loop.simps) (simp add: holds_def spec_segment_def)
    next
      case ncode: False
      have "pn_loop path a i code st = res (pn_body path a (int i) SLASH st)"
        using e ncode by (subst pn_loop.simps, subst pn_loop.simps) simp
      also have "\<dots> = join [SLASH] (spec_segment a acc cur)"
        using inv_separator [OF "1.prems", of a] by (simp add: pn_body_def holds_def)
      finally show ?thesis
        using e by simp
    qed
  qed
qed

text \<open>The loop of the source computes what the specification describes.\<close>

lemma posixNormalize_refines:
  "posixNormalize path allowAboveRoot = spec_posixNormalize path allowAboveRoot"
proof -
  have "pn_inv path 0 None \<lparr>res = [], lastSegmentLength = 0, lastSlash = -1, dots = 0\<rparr> [] []"
    by (simp add: pn_inv_def holds_def good_def)
  from pn_loop_walk [OF this] show ?thesis
    by (simp add: posixNormalize_def walk_spec)
qed

section \<open>Normalizing twice\<close>

lemma normalize_finish:
  assumes "p \<noteq> []" and "decodeURIComponent p = Inr d"
  shows "normalize p
           = Inr (finish (hd p = SLASH) (last p = SLASH) (posixNormalize d (hd p \<noteq> SLASH)))"
proof -
  have "charCodeAt p 0 = Some SLASH \<longleftrightarrow> hd p = SLASH"
    using assms(1) by (cases p) (simp_all add: charCodeAt_def)
  moreover have "charCodeAt p (int (length p) - 1) = Some SLASH \<longleftrightarrow> last p = SLASH"
  proof -
    from assms(1) obtain xs x where p: "p = xs @ [x]"
      by (cases p rule: rev_cases) auto
    have "nat (int (length p) - 1) = length xs"
      by (simp add: p)
    then show ?thesis
      by (simp add: charCodeAt_def p)
  qed
  ultimately show ?thesis
    using assms by (simp add: normalize_def finish_def Let_def)
qed

lemma decode_no_percent: "PERCENT \<notin> set s \<Longrightarrow> decodeURIComponent s = Inr s"
  by (induction s) auto

subsection \<open>The segments of a result are normal\<close>

lemma split_segments_no_sep: "list_all (\<lambda>s. c \<notin> set s) (split c x)"
proof (induction x)
  case Nil
  then show ?case by simp
next
  case (Cons y x)
  then show ?case
    using split_not_Nil [of c x] by (cases "split c x") (auto simp: Let_def)
qed

lemma normal_empty: "normal_segments a []"
  by (simp add: normal_segments_def good_def)

lemma dropWhile_all: "list_all P ys \<Longrightarrow> dropWhile P ys = []"
  by (simp add: list_all_iff)

lemma all_last: "list_all P ys \<Longrightarrow> ys \<noteq> [] \<Longrightarrow> P (last ys)"
  by (simp add: list_all_iff)

lemma dotdot_tail:
  "[DOT, DOT] \<notin> set (dropWhile (\<lambda>s. s = [DOT, DOT]) (ys @ [s])) \<longleftrightarrow>
     (if s = [DOT, DOT] then list_all (\<lambda>s. s = [DOT, DOT]) ys
      else [DOT, DOT] \<notin> set (dropWhile (\<lambda>s. s = [DOT, DOT]) ys))"
proof (cases "list_all (\<lambda>s. s = [DOT, DOT]) ys")
  case True
  then have e: "dropWhile (\<lambda>s. s = [DOT, DOT]) (ys @ [s]) = dropWhile (\<lambda>s. s = [DOT, DOT]) [s]"
    by (simp add: list_all_iff dropWhile_append2)
  have n: "dropWhile (\<lambda>s. s = [DOT, DOT]) ys = []"
    using True by (rule dropWhile_all)
  show ?thesis
    unfolding e n using True by simp
next
  case False
  then obtain y where y: "y \<in> set ys" "y \<noteq> [DOT, DOT]"
    by (auto simp: list_all_iff)
  then have "dropWhile (\<lambda>s. s = [DOT, DOT]) (ys @ [s]) = dropWhile (\<lambda>s. s = [DOT, DOT]) ys @ [s]"
    by (intro dropWhile_append1) auto
  with False show ?thesis by auto
qed

lemma normal_snoc:
  "normal_segments a (ys @ [s]) \<longleftrightarrow>
     normal_segments a ys \<and> s \<noteq> [] \<and> SLASH \<notin> set s \<and> s \<noteq> [DOT]
     \<and> (s = [DOT, DOT] \<longrightarrow> a \<and> list_all (\<lambda>s. s = [DOT, DOT]) ys)"
  unfolding normal_segments_def dotdot_tail
  by (auto simp: good_def dest: dropWhile_all)

lemma normal_butlast: "normal_segments a acc \<Longrightarrow> normal_segments a (butlast acc)"
  by (cases acc rule: rev_cases) (simp_all add: normal_snoc)

lemma not_dotdot_last:
  assumes "normal_segments a acc" and "\<not> (acc \<noteq> [] \<and> last acc \<noteq> [DOT, DOT])"
  shows "list_all (\<lambda>s. s = [DOT, DOT]) acc"
proof (cases acc rule: rev_cases)
  case Nil
  then show ?thesis by simp
next
  case (snoc ys s)
  with assms show ?thesis by (simp add: normal_snoc)
qed

lemma normal_step:
  assumes "normal_segments a acc" and "SLASH \<notin> set seg"
  shows "normal_segments a (spec_segment a acc seg)"
proof -
  consider (drop) "seg = [] \<or> seg = [DOT]" | (dotdot) "seg = [DOT, DOT]"
    | (name) "seg \<noteq> []" "seg \<noteq> [DOT]" "seg \<noteq> [DOT, DOT]"
    by blast
  then show ?thesis
  proof cases
    case drop
    with assms show ?thesis by (auto simp: spec_segment_def)
  next
    case dotdot
    show ?thesis
    proof (cases "acc \<noteq> [] \<and> last acc \<noteq> [DOT, DOT]")
      case True
      with assms dotdot show ?thesis
        by (simp add: spec_segment_def normal_butlast)
    next
      case False
      with assms dotdot not_dotdot_last [OF assms(1) False] show ?thesis
        by (auto simp: spec_segment_def normal_snoc DOT_not_SLASH)
    qed
  next
    case name
    with assms show ?thesis
      by (simp add: spec_segment_def normal_snoc)
  qed
qed

lemma normal_foldl:
  "normal_segments a acc \<Longrightarrow> list_all (\<lambda>s. SLASH \<notin> set s) segs \<Longrightarrow>
     normal_segments a (foldl (spec_segment a) acc segs)"
  by (induction segs arbitrary: acc) (simp_all add: normal_step)

subsection \<open>Normal segments are left as they are\<close>

lemma normal_fixed:
  "normal_segments a acc \<Longrightarrow> foldl (spec_segment a) [] acc = acc"
proof (induction acc rule: rev_induct)
  case Nil
  then show ?case by simp
next
  case (snoc s ys)
  then have ys: "foldl (spec_segment a) [] ys = ys"
    and s: "s \<noteq> []" "s \<noteq> [DOT]" "s = [DOT, DOT] \<longrightarrow> a \<and> list_all (\<lambda>s. s = [DOT, DOT]) ys"
    by (simp_all add: normal_snoc)
  have "spec_segment a ys s = ys @ [s]"
  proof (cases "s = [DOT, DOT]")
    case True
    with s have "a" and "list_all (\<lambda>s. s = [DOT, DOT]) ys" by simp_all
    then have "\<not> (ys \<noteq> [] \<and> last ys \<noteq> [DOT, DOT])"
      by (auto dest: all_last)
    with True \<open>a\<close> show ?thesis
      by (auto simp: spec_segment_def)
  next
    case False
    with s show ?thesis by (simp add: spec_segment_def)
  qed
  then show ?case by (simp add: ys)
qed

subsection \<open>Normalizing a result again\<close>

lemma split_snoc_sep: "split c (s @ [c]) = split c s @ [[]]"
proof (induction s)
  case Nil
  then show ?case by simp
next
  case (Cons x s)
  then show ?case
    using split_not_Nil [of c s] by (cases "split c s") (simp_all add: Let_def)
qed

lemma foldl_empty_segment:
  "foldl (spec_segment a) acc ([] # xs) = foldl (spec_segment a) acc xs"
  "foldl (spec_segment a) acc (xs @ [[]]) = foldl (spec_segment a) acc xs"
  by (simp_all add: spec_segment_def)

lemma good_no_sep: "good acc \<Longrightarrow> list_all (\<lambda>e. SLASH \<notin> set e) acc"
  by (simp add: good_def list_all_iff)

lemma join_ends:
  assumes "good acc" and "acc \<noteq> []"
  shows "join [SLASH] acc \<noteq> []" "hd (join [SLASH] acc) \<noteq> SLASH" "last (join [SLASH] acc) \<noteq> SLASH"
proof -
  show ne: "join [SLASH] acc \<noteq> []"
    using assms by (simp add: good_join_Nil)
  obtain x xs where acc: "acc = x # xs"
    using assms(2) by (cases acc) auto
  with assms(1) have x: "x \<noteq> []" "SLASH \<notin> set x"
    by (simp_all add: good_def)
  have "hd (join [SLASH] acc) = hd x"
    using x by (cases xs) (simp_all add: acc)
  then show "hd (join [SLASH] acc) \<noteq> SLASH"
    using x by (cases x) auto
  have l: "last acc \<noteq> []" "SLASH \<notin> set (last acc)"
    using good_last [OF assms] by simp_all
  have "last (join [SLASH] acc) = last (last acc)"
  proof (cases "butlast acc = []")
    case True
    then show ?thesis using assms(2) by (simp add: join_single)
  next
    case False
    then show ?thesis using assms(2) l by (simp add: join_butlast)
  qed
  then show "last (join [SLASH] acc) \<noteq> SLASH"
    using l by (metis last_in_set)
qed

text \<open>The specification applied to the joined segments of a result, with or without a
  leading and a trailing separator, gives the result back.\<close>

lemma spec_fixed:
  assumes n: "normal_segments a acc" and ne: "acc \<noteq> []"
  shows "spec_posixNormalize (join [SLASH] acc) a = join [SLASH] acc"
    "spec_posixNormalize (join [SLASH] acc @ [SLASH]) a = join [SLASH] acc"
    "spec_posixNormalize (SLASH # join [SLASH] acc) a = join [SLASH] acc"
    "spec_posixNormalize (SLASH # join [SLASH] acc @ [SLASH]) a = join [SLASH] acc"
proof -
  let ?r = "join [SLASH] acc"
  from n have g: "good acc" by (simp add: normal_segments_def)
  have sp: "split SLASH ?r = acc"
    using ne good_no_sep [OF g] by (rule split_join)
  have f: "foldl (spec_segment a) [] acc = acc"
    using n by (rule normal_fixed)
  have sp1: "split SLASH (?r @ [SLASH]) = acc @ [[]]"
    by (simp add: split_snoc_sep sp)
  have sp2: "split SLASH (SLASH # ?r) = [] # acc"
    by (simp add: sp)
  have sp3: "split SLASH (SLASH # ?r @ [SLASH]) = [] # acc @ [[]]"
    using sp1 by simp
  show "spec_posixNormalize ?r a = ?r"
    unfolding spec_posixNormalize_def sp f ..
  show "spec_posixNormalize (?r @ [SLASH]) a = ?r"
    unfolding spec_posixNormalize_def sp1 foldl_empty_segment f ..
  show "spec_posixNormalize (SLASH # ?r) a = ?r"
    unfolding spec_posixNormalize_def sp2 foldl_empty_segment f ..
  show "spec_posixNormalize (SLASH # ?r @ [SLASH]) a = ?r"
    unfolding spec_posixNormalize_def sp3 foldl_empty_segment(1) foldl_empty_segment(2) f ..
qed

lemma spec_empty:
  "spec_posixNormalize [SLASH] a = []" "spec_posixNormalize [DOT] a = []"
  "spec_posixNormalize [DOT, SLASH] a = []"
  using DOT_not_SLASH by (simp_all add: spec_posixNormalize_def spec_segment_def Let_def)

lemma literals: "js ''.'' = [DOT]" "js ''/'' = [SLASH]"
  by (simp_all add: js_def DOT_def SLASH_def)

lemma finish_fixed:
  fixes ab tr :: bool
  assumes n: "normal_segments (\<not> ab) acc"
  defines "r \<equiv> join [SLASH] acc"
  defines "q \<equiv> finish ab tr (join [SLASH] acc)"
  shows "q \<noteq> [] \<and> (hd q = SLASH) = ab
         \<and> finish ab (last q = SLASH) (spec_posixNormalize q (\<not> ab)) = q"
proof (cases "acc = []")
  case True
  then have r: "r = []" by (simp add: r_def)
  show ?thesis
    using DOT_not_SLASH
    by (cases ab; cases tr) (simp_all add: q_def r [unfolded r_def] finish_def literals spec_empty)
next
  case False
  from n have g: "good acc" by (simp add: normal_segments_def)
  note e = join_ends [OF g False]
  note f = spec_fixed [OF n False]
  show ?thesis
    using e f
    by (cases ab; cases tr) (simp_all add: q_def finish_def literals)
qed

subsection \<open>The characters of a result\<close>

lemma split_chars: "s \<in> set (split c x) \<Longrightarrow> set s \<subseteq> set x"
proof (induction x arbitrary: s)
  case Nil
  then show ?case by simp
next
  case (Cons y x)
  obtain h t where sp: "split c x = h # t"
    using split_not_Nil [of c x] by (cases "split c x") auto
  from Cons.IH [of h] Cons.IH sp have "set h \<subseteq> set x" "\<And>s. s \<in> set t \<Longrightarrow> set s \<subseteq> set x"
    by simp_all
  with Cons.prems sp show ?case
    by (auto simp: Let_def split: if_splits)
qed

lemma step_chars:
  assumes "s \<in> set (spec_segment a acc seg)"
  shows "s \<in> set acc \<or> s = seg \<or> s = [DOT, DOT]"
  using assms by (auto simp: spec_segment_def split: if_splits dest: in_set_butlastD)

lemma foldl_chars:
  "s \<in> set (foldl (spec_segment a) acc segs) \<Longrightarrow>
     s \<in> set acc \<or> s \<in> set segs \<or> s = [DOT, DOT]"
proof (induction segs arbitrary: acc)
  case Nil
  then show ?case by simp
next
  case (Cons seg segs)
  from Cons.IH [OF Cons.prems [simplified]] show ?case
    by (auto dest: step_chars)
qed

lemma join_chars: "set (join [c] acc) \<subseteq> \<Union> (set ` set acc) \<union> {c}"
  by (induction "[c]" acc rule: join.induct) auto

lemma finish_chars: "set (finish ab tr r) \<subseteq> set r \<union> {DOT, SLASH}"
  by (auto simp: finish_def literals Let_def split: if_splits)

lemma spec_chars: "set (spec_posixNormalize x a) \<subseteq> set x \<union> {DOT, SLASH}"
proof
  fix c assume "c \<in> set (spec_posixNormalize x a)"
  then have "c \<in> \<Union> (set ` set (foldl (spec_segment a) [] (split SLASH x))) \<or> c = SLASH"
    using join_chars [of SLASH "foldl (spec_segment a) [] (split SLASH x)"]
    by (auto simp: spec_posixNormalize_def)
  then show "c \<in> set x \<union> {DOT, SLASH}"
  proof
    assume "c \<in> \<Union> (set ` set (foldl (spec_segment a) [] (split SLASH x)))"
    then obtain s where s: "s \<in> set (foldl (spec_segment a) [] (split SLASH x))" "c \<in> set s"
      by auto
    from foldl_chars [OF s(1)] have "s \<in> set (split SLASH x) \<or> s = [DOT, DOT]"
      by simp
    with s(2) split_chars [of s SLASH x] show ?thesis by auto
  next
    assume "c = SLASH"
    then show ?thesis by simp
  qed
qed

subsection \<open>Idempotence\<close>

lemma normalize_dot: "normalize [DOT] = Inr [DOT]"
proof -
  have "normalize (js ''.'') = Inr (js ''.'')" by code_simp
  then show ?thesis by (simp add: literals)
qed

lemma normalize_result:
  assumes "normalize p = Inr q" and "p \<noteq> []"
  obtains d where "decodeURIComponent p = Inr d"
    and "q = finish (hd p = SLASH) (last p = SLASH) (spec_posixNormalize d (hd p \<noteq> SLASH))"
proof (cases "decodeURIComponent p")
  case (Inl e)
  with assms show ?thesis
    by (simp add: normalize_def Let_def)
next
  case (Inr d)
  with assms normalize_finish [OF assms(2) Inr] that show ?thesis
    by (simp add: posixNormalize_refines)
qed

lemma PERCENT_not_special: "PERCENT \<noteq> DOT" "PERCENT \<noteq> SLASH"
  by (simp_all add: PERCENT_def DOT_def SLASH_def)

text \<open>
  C6, amended. When \<open>normalize\<close> returns a path that holds no percent sign, normalizing
  that path returns it unchanged; and a path without a percent sign is normalized to such
  a path, so for every path without a percent sign \<open>normalize\<close> is idempotent.
\<close>

theorem normalize_idempotent:
  "(normalize p = Inr q \<and> PERCENT \<notin> set q \<longrightarrow> normalize q = Inr q)
   \<and> (PERCENT \<notin> set p \<longrightarrow> (\<exists>q. normalize p = Inr q \<and> normalize q = Inr q))"
proof -
  have a: "normalize q = Inr q" if n: "normalize p = Inr q" and np: "PERCENT \<notin> set q" for p q
  proof (cases "p = []")
    case True
    with n have "q = [DOT]" by (simp add: normalize_def literals)
    then show ?thesis by (simp add: normalize_dot)
  next
    case False
    from n False obtain d where d: "decodeURIComponent p = Inr d"
      and q: "q = finish (hd p = SLASH) (last p = SLASH) (spec_posixNormalize d (hd p \<noteq> SLASH))"
      by (rule normalize_result)
    let ?ab = "hd p = SLASH"
    let ?acc = "foldl (spec_segment (\<not> ?ab)) [] (split SLASH d)"
    have nf: "normal_segments (\<not> ?ab) ?acc"
      by (intro normal_foldl normal_empty split_segments_no_sep)
    have q': "q = finish ?ab (last p = SLASH) (join [SLASH] ?acc)"
      by (simp add: q spec_posixNormalize_def)
    from finish_fixed [OF nf, of "last p = SLASH"] have
      ne: "q \<noteq> []" and ab: "(hd q = SLASH) = ?ab"
      and fx: "finish ?ab (last q = SLASH) (spec_posixNormalize q (\<not> ?ab)) = q"
      unfolding q' [symmetric] by simp_all
    have "normalize q
            = Inr (finish (hd q = SLASH) (last q = SLASH) (posixNormalize q (hd q \<noteq> SLASH)))"
      using ne decode_no_percent [OF np] by (rule normalize_finish)
    then show ?thesis
      by (simp add: posixNormalize_refines ab fx)
  qed
  have b: "\<exists>q. normalize p = Inr q \<and> normalize q = Inr q" if np: "PERCENT \<notin> set p"
  proof (cases "p = []")
    case True
    have "normalize [] = Inr [DOT]"
      by (simp add: normalize_def literals)
    with True normalize_dot show ?thesis by blast
  next
    case False
    let ?q = "finish (hd p = SLASH) (last p = SLASH) (posixNormalize p (hd p \<noteq> SLASH))"
    have n: "normalize p = Inr ?q"
      using False decode_no_percent [OF np] by (rule normalize_finish)
    have "set ?q \<subseteq> set p \<union> {DOT, SLASH}"
      using finish_chars [of "hd p = SLASH" "last p = SLASH" "posixNormalize p (hd p \<noteq> SLASH)"]
        spec_chars [of p "hd p \<noteq> SLASH"]
      by (auto simp: posixNormalize_refines)
    then have "PERCENT \<notin> set ?q"
      using np PERCENT_not_special by auto
    from a [OF n this] n show ?thesis by blast
  qed
  from a b show ?thesis by blast
qed

theorem normalize_idempotent_witness:
  "normalize (js ''/a/b/../c/'') = Inr (js ''/a/c/'') \<and> PERCENT \<notin> set (js ''/a/c/'')
   \<and> normalize (js ''/a/c/'') = Inr (js ''/a/c/'')
   \<and> PERCENT \<notin> set (js ''/a/b/../c/'')
   \<and> (\<exists>q. normalize (js ''/a/b/../c/'') = Inr q \<and> normalize q = Inr q)"
proof -
  have h: "normalize (js ''/a/b/../c/'') = Inr (js ''/a/c/'')"
    "PERCENT \<notin> set (js ''/a/c/'')" "PERCENT \<notin> set (js ''/a/b/../c/'')"
    by code_simp+
  show ?thesis
    using h normalize_idempotent [of "js ''/a/b/../c/''" "js ''/a/c/''"] by blast
qed

text \<open>
  C6, as the claim states it, also for paths with percent-escapes: every call decodes
  once more. \<^verbatim>\<open>normalize("%2525")\<close> is \<^verbatim>\<open>"%25"\<close>, and normalizing that gives
  \<^verbatim>\<open>"%"\<close>.
\<close>

theorem normalize_twice_counterexample:
  "normalize (js ''%2525'') = Inr (js ''%25'')
   \<and> normalize (js ''%25'') = Inr (js ''%'')
   \<and> js ''%'' \<noteq> js ''%25''"
  by code_simp

section \<open>Collapsing of traversal\<close>

text \<open>
  C8. \<open>normalize\<close> decodes the path and hands it to the loop, with traversal above the
  root allowed exactly when the path does not start with a separator; the loop computes
  what the specification describes (\<open>spec_posixNormalize\<close>: a segment \<open>..\<close> removes the
  real segment before it, and with nothing to remove it is kept when traversal above the
  root is allowed and dropped when it is not). The four examples hold.
\<close>

theorem normalize_collapses_traversal:
  "(p \<noteq> [] \<and> decodeURIComponent p = Inr d \<longrightarrow>
      normalize p = Inr (finish (hd p = SLASH) (last p = SLASH)
                           (spec_posixNormalize d (hd p \<noteq> SLASH))))
   \<and> posixNormalize path allowAboveRoot = spec_posixNormalize path allowAboveRoot
   \<and> normalize (js ''/a/b/../c'') = Inr (js ''/a/c'')
   \<and> normalize (js ''a/b/../../c'') = Inr (js ''c'')
   \<and> normalize (js ''../a'') = Inr (js ''../a'')
   \<and> normalize (js ''/../a'') = Inr (js ''/a'')"
proof (intro conjI impI)
  assume "p \<noteq> [] \<and> decodeURIComponent p = Inr d"
  then show "normalize p = Inr (finish (hd p = SLASH) (last p = SLASH)
                           (spec_posixNormalize d (hd p \<noteq> SLASH)))"
    by (simp add: normalize_finish posixNormalize_refines)
next
  show "posixNormalize path allowAboveRoot = spec_posixNormalize path allowAboveRoot"
    by (rule posixNormalize_refines)
next
  show "normalize (js ''/a/b/../c'') = Inr (js ''/a/c'')"
    by code_simp
next
  show "normalize (js ''a/b/../../c'') = Inr (js ''c'')"
    by code_simp
next
  show "normalize (js ''../a'') = Inr (js ''../a'')"
    by code_simp
next
  show "normalize (js ''/../a'') = Inr (js ''/a'')"
    by code_simp
qed

theorem normalize_collapses_traversal_witness:
  "js ''/../a'' \<noteq> [] \<and> decodeURIComponent (js ''/../a'') = Inr (js ''/../a'')
   \<and> normalize (js ''/../a'')
       = Inr (finish (hd (js ''/../a'') = SLASH) (last (js ''/../a'') = SLASH)
                (spec_posixNormalize (js ''/../a'') (hd (js ''/../a'') \<noteq> SLASH)))"
proof -
  have h: "js ''/../a'' \<noteq> [] \<and> decodeURIComponent (js ''/../a'') = Inr (js ''/../a'')"
    by code_simp
  show ?thesis
    using h normalize_collapses_traversal [of "js ''/../a''" "js ''/../a''"] by blast
qed

end
